theory Spec2Isabelle
  imports Main
begin

section \<open>Data model of \<^verbatim>\<open>VirusGenealogy\<close>\<close>

text \<open>
  The three exception classes of the header, the \<^verbatim>\<open>std::out_of_range\<close> thrown by
  \<^verbatim>\<open>std::map::at\<close>, the dereference of an end iterator (undefined behaviour in C++,
  an error value here), and an exception thrown by the identifier or payload type
  (comparison, copy, constructor).
\<close>

datatype error =
    VirusNotFound
  | VirusAlreadyCreated
  | TriedToRemoveStemVirus
  | OutOfRange
  | EndDeref
  | UserException

text \<open>
  \<^verbatim>\<open>class Node\<close>: the children and the parents as \<^verbatim>\<open>std::set\<close> of identifiers, and
  the identifier of the node itself.
\<close>

record 'id node =
  children :: "'id set"
  parents :: "'id set"
  virus :: 'id

type_synonym 'id graph_t = "'id \<rightharpoonup> 'id node"

text \<open>
  \<^verbatim>\<open>virus_set_t\<close> is a \<^verbatim>\<open>std::set<Virus, set_compare>\<close>; \<^verbatim>\<open>set_compare\<close> looks only at
  \<^verbatim>\<open>get_id()\<close>, so the set holds at most one payload for each identifier: a map from
  the identifier to the payload stored under it.
\<close>

type_synonym ('id, 'v) virus_set_t = "'id \<rightharpoonup> 'v"

record ('id, 'v) genealogy =
  graph_m :: "'id graph_t"
  virus_set :: "('id, 'v) virus_set_t"
  stem_id :: 'id

subsection \<open>Operations of the identifier and payload types that may throw\<close>

text \<open>
  Every call that runs code of the template parameter (a comparison inside a container
  operation, a copy, a constructor) may throw. The budget says how many such calls
  still succeed: \<open>None\<close> is a parameter type that never throws, \<open>Some k\<close> lets
  \<open>k\<close> calls succeed and makes the next one throw.
\<close>

type_synonym budget = "nat option"

definition tick :: "budget \<Rightarrow> error + budget" where
  "tick b = (case b of None \<Rightarrow> Inr None
                     | Some 0 \<Rightarrow> Inl UserException
                     | Some (Suc k) \<Rightarrow> Inr (Some k))"

definition bindE :: "error + 'a \<Rightarrow> ('a \<Rightarrow> error + 'b) \<Rightarrow> error + 'b" where
  "bindE m f = (case m of Inl e \<Rightarrow> Inl e | Inr x \<Rightarrow> f x)"

text \<open>\<^verbatim>\<open>graph.contains(id)\<close>, the body of \<^verbatim>\<open>exists\<close>.\<close>

definition exists_b :: "budget \<Rightarrow> 'id graph_t \<Rightarrow> 'id \<Rightarrow> error + bool \<times> budget" where
  "exists_b b g k = bindE (tick b) (\<lambda>b'. Inr (g k \<noteq> None, b'))"

text \<open>\<^verbatim>\<open>graph.find(id)->second\<close>: the node under the iterator that \<^verbatim>\<open>find\<close> returns.\<close>

definition find_b :: "budget \<Rightarrow> 'id graph_t \<Rightarrow> 'id \<Rightarrow> error + 'id node \<times> budget" where
  "find_b b g k = bindE (tick b)
     (\<lambda>b'. case g k of None \<Rightarrow> Inl EndDeref | Some n \<Rightarrow> Inr (n, b'))"

text \<open>\<^verbatim>\<open>graph.at(id)\<close>.\<close>

definition at_b :: "budget \<Rightarrow> 'id graph_t \<Rightarrow> 'id \<Rightarrow> error + 'id node \<times> budget" where
  "at_b b g k = bindE (tick b)
     (\<lambda>b'. case g k of None \<Rightarrow> Inl OutOfRange | Some n \<Rightarrow> Inr (n, b'))"

text \<open>\<^verbatim>\<open>set.insert(x)\<close>, \<^verbatim>\<open>set.erase(x)\<close>, \<^verbatim>\<open>set.contains(x)\<close> and the copy of a set.\<close>

definition set_insert_b :: "budget \<Rightarrow> 'id \<Rightarrow> 'id set \<Rightarrow> error + 'id set \<times> budget" where
  "set_insert_b b x A = bindE (tick b) (\<lambda>b'. Inr (insert x A, b'))"

definition set_erase_b :: "budget \<Rightarrow> 'id \<Rightarrow> 'id set \<Rightarrow> error + 'id set \<times> budget" where
  "set_erase_b b x A = bindE (tick b) (\<lambda>b'. Inr (A - {x}, b'))"

definition set_contains_b :: "budget \<Rightarrow> 'id \<Rightarrow> 'id set \<Rightarrow> error + bool \<times> budget" where
  "set_contains_b b x A = bindE (tick b) (\<lambda>b'. Inr (x \<in> A, b'))"

definition copy_b :: "budget \<Rightarrow> 'a \<Rightarrow> error + 'a \<times> budget" where
  "copy_b b x = bindE (tick b) (\<lambda>b'. Inr (x, b'))"

text \<open>
  \<^verbatim>\<open>graph.insert(graph.end(), {id, node})\<close>: inserts unless the key is there, and
  returns the iterator to the element with that key; the node under that iterator is
  the second component.
\<close>

definition map_insert_b ::
  "budget \<Rightarrow> 'id graph_t \<Rightarrow> 'id \<Rightarrow> 'id node \<Rightarrow> error + 'id graph_t \<times> 'id node \<times> budget" where
  "map_insert_b b g k n = bindE (tick b)
     (\<lambda>b'. case g k of None \<Rightarrow> Inr (g(k \<mapsto> n), n, b') | Some m \<Rightarrow> Inr (g, m, b'))"

section \<open>Construction and queries\<close>

text \<open>The constructor: the graph holds the stem alone, the payload cache is empty.\<close>

definition construct :: "'id \<Rightarrow> ('id, 'v) genealogy" where
  "construct stem =
     \<lparr>graph_m = Map.empty(stem \<mapsto> \<lparr>children = {}, parents = {}, virus = stem\<rparr>),
      virus_set = Map.empty,
      stem_id = stem\<rparr>"

definition exists :: "budget \<Rightarrow> ('id, 'v) genealogy \<Rightarrow> 'id \<Rightarrow> error + bool" where
  "exists b s k = bindE (exists_b b (graph_m s) k) (\<lambda>(r, b'). Inr r)"

definition get_stem_id :: "('id, 'v) genealogy \<Rightarrow> 'id" where
  "get_stem_id s = stem_id s"

text \<open>
  \<^verbatim>\<open>get_parents\<close>: the parents in the order of the \<^verbatim>\<open>std::set\<close>, ascending; every
  \<^verbatim>\<open>push_back\<close> copies an identifier.
\<close>

fun push_all :: "budget \<Rightarrow> 'id list \<Rightarrow> 'id list \<Rightarrow> error + 'id list \<times> budget" where
  "push_all b [] acc = Inr (acc, b)"
| "push_all b (x # xs) acc = bindE (copy_b b x) (\<lambda>(y, b'). push_all b' xs (acc @ [y]))"

definition get_parents ::
  "budget \<Rightarrow> ('id::linorder, 'v) genealogy \<Rightarrow> 'id \<Rightarrow> error + 'id list" where
  "get_parents b s k =
     bindE (exists_b b (graph_m s) k) (\<lambda>(ex, b1).
       if \<not> ex then Inl VirusNotFound
       else bindE (at_b b1 (graph_m s) k) (\<lambda>(n, b2).
            bindE (copy_b b2 (parents n)) (\<lambda>(set_of_parents, b3).
            bindE (push_all b3 (sorted_list_of_set set_of_parents) []) (\<lambda>(result, b4).
              Inr result))))"

section \<open>Creation\<close>

text \<open>
  \<^verbatim>\<open>create(id, parent_id)\<close>. The result is the exception or normal return, and the
  state the object is left in. The \<^verbatim>\<open>try\<close> block is \<open>create_try\<close>; the handler
  erases the inserted element and rethrows.
\<close>

definition create_try ::
  "budget \<Rightarrow> 'id graph_t \<Rightarrow> 'id \<Rightarrow> 'id node \<Rightarrow> error + 'id graph_t" where
  "create_try b g1 parent_id inserted =
     bindE (find_b b g1 parent_id) (\<lambda>(np, b1).
     bindE (copy_b b1 (children np)) (\<lambda>(child_vector_cp, b2).
     bindE (set_insert_b b2 (virus inserted) child_vector_cp) (\<lambda>(child_vector_cp', b3).
       Inr (g1(parent_id \<mapsto> np\<lparr>children := child_vector_cp'\<rparr>)))))"

definition create ::
  "budget \<Rightarrow> 'id \<Rightarrow> 'id \<Rightarrow> ('id, 'v) genealogy \<Rightarrow> (error + unit) \<times> ('id, 'v) genealogy" where
  "create b k parent_id s =
     (case exists_b b (graph_m s) k of
        Inl e \<Rightarrow> (Inl e, s)
      | Inr (ex, b1) \<Rightarrow>
          if ex then (Inl VirusAlreadyCreated, s)
          else (case exists_b b1 (graph_m s) parent_id of
            Inl e \<Rightarrow> (Inl e, s)
          | Inr (exp, b2) \<Rightarrow>
              if \<not> exp then (Inl VirusNotFound, s)
              else (case bindE (find_b b2 (graph_m s) parent_id)
                           (\<lambda>(np, b3). set_insert_b b3 (virus np) {}) of
                Inl e \<Rightarrow> (Inl e, s)
              | Inr (ps, b4) \<Rightarrow>
                  (case map_insert_b b4 (graph_m s) k
                          \<lparr>children = {}, parents = ps, virus = k\<rparr> of
                     Inl e \<Rightarrow> (Inl e, s)
                   | Inr (g1, inserted, b5) \<Rightarrow>
                       (case create_try b5 g1 parent_id inserted of
                          Inl e \<Rightarrow> (Inl e, s\<lparr>graph_m := g1(k := None)\<rparr>)
                        | Inr g2 \<Rightarrow> (Inr (), s\<lparr>graph_m := g2\<rparr>))))))"

text \<open>
  \<^verbatim>\<open>create(id, parent_ids)\<close>: the validation loop, \<^verbatim>\<open>create_virus_set\<close>, the loop of
  the \<^verbatim>\<open>try\<close> block that fills the two lists (here one list of pairs), and the
  final loop that swaps from the back.
\<close>

fun validate_parents :: "budget \<Rightarrow> 'id graph_t \<Rightarrow> 'id list \<Rightarrow> error + budget" where
  "validate_parents b g [] = Inr b"
| "validate_parents b g (p # ps) =
     bindE (exists_b b g p) (\<lambda>(ex, b').
       if \<not> ex then Inl VirusNotFound else validate_parents b' g ps)"

fun create_virus_set ::
  "budget \<Rightarrow> 'id graph_t \<Rightarrow> 'id list \<Rightarrow> 'id set \<Rightarrow> error + 'id set \<times> budget" where
  "create_virus_set b g [] result = Inr (result, b)"
| "create_virus_set b g (p # ps) result =
     bindE (find_b b g p) (\<lambda>(np, b1).
     bindE (set_insert_b b1 (virus np) result) (\<lambda>(result', b2).
       create_virus_set b2 g ps result'))"

fun collect_swaps ::
  "budget \<Rightarrow> 'id graph_t \<Rightarrow> 'id node \<Rightarrow> 'id list \<Rightarrow> ('id \<times> 'id set) list
     \<Rightarrow> error + ('id \<times> 'id set) list" where
  "collect_swaps b g1 inserted [] todo = Inr todo"
| "collect_swaps b g1 inserted (p # ps) todo =
     bindE (find_b b g1 p) (\<lambda>(np, b1).
     bindE (copy_b b1 (children np)) (\<lambda>(child_vector_cp, b2).
     bindE (set_insert_b b2 (virus inserted) child_vector_cp) (\<lambda>(child_vector_cp', b3).
     bindE (copy_b b3 child_vector_cp') (\<lambda>(pushed, b4).
       collect_swaps b4 g1 inserted ps (todo @ [(p, pushed)])))))"

text \<open>The argument is the list of pending swaps, last pushed first.\<close>

fun commit_swaps :: "('id \<times> 'id set) list \<Rightarrow> 'id graph_t \<Rightarrow> 'id graph_t" where
  "commit_swaps [] g = g"
| "commit_swaps ((p, cs) # rest) g =
     commit_swaps rest (case g p of None \<Rightarrow> g | Some n \<Rightarrow> g(p \<mapsto> n\<lparr>children := cs\<rparr>))"

definition create_multi ::
  "budget \<Rightarrow> 'id \<Rightarrow> 'id list \<Rightarrow> ('id, 'v) genealogy
     \<Rightarrow> (error + unit) \<times> ('id, 'v) genealogy" where
  "create_multi b k parent_ids s =
     (case exists_b b (graph_m s) k of
        Inl e \<Rightarrow> (Inl e, s)
      | Inr (ex, b1) \<Rightarrow>
          if ex then (Inl VirusAlreadyCreated, s)
          else (case validate_parents b1 (graph_m s) parent_ids of
            Inl e \<Rightarrow> (Inl e, s)
          | Inr b2 \<Rightarrow>
              if length parent_ids = 0 then (Inr (), s)
              else (case create_virus_set b2 (graph_m s) parent_ids {} of
                Inl e \<Rightarrow> (Inl e, s)
              | Inr (ps, b3) \<Rightarrow>
                  (case map_insert_b b3 (graph_m s) k
                          \<lparr>children = {}, parents = ps, virus = k\<rparr> of
                     Inl e \<Rightarrow> (Inl e, s)
                   | Inr (g1, inserted, b4) \<Rightarrow>
                       (case collect_swaps b4 g1 inserted parent_ids [] of
                          Inl e \<Rightarrow> (Inl e, s\<lparr>graph_m := g1(k := None)\<rparr>)
                        | Inr todo \<Rightarrow>
                            (Inr (), s\<lparr>graph_m := commit_swaps (rev todo) g1\<rparr>))))))"

section \<open>Linking\<close>

text \<open>
  \<^verbatim>\<open>connect(child_id, parent_id)\<close>: \<open>connect_graph\<close> is the body, which either throws
  or gives the new graph. The second swap acts on the node as the first swap left it,
  which matters when both identifiers are the same.
\<close>

definition connect_graph ::
  "budget \<Rightarrow> 'id graph_t \<Rightarrow> 'id \<Rightarrow> 'id \<Rightarrow> error + 'id graph_t" where
  "connect_graph b g child_id parent_id =
     bindE (exists_b b g child_id) (\<lambda>(exc, b1).
       if \<not> exc then Inl VirusNotFound
       else bindE (exists_b b1 g parent_id) (\<lambda>(exp, b2).
       if \<not> exp then Inl VirusNotFound
       else bindE (find_b b2 g child_id) (\<lambda>(child_node, b3).
            bindE (find_b b3 g parent_id) (\<lambda>(parent_node, b4).
            bindE (set_contains_b b4 parent_id (parents child_node)) (\<lambda>(linked, b5).
       if linked then Inr g
       else bindE (copy_b b5 (parents child_node)) (\<lambda>(child_parents_cp, b6).
            bindE (copy_b b6 (children parent_node)) (\<lambda>(parent_children_cp, b7).
            bindE (set_insert_b b7 (virus parent_node) child_parents_cp)
              (\<lambda>(child_parents_cp', b8).
            bindE (set_insert_b b8 (virus child_node) parent_children_cp)
              (\<lambda>(parent_children_cp', b9).
              let g1 = g(child_id \<mapsto> child_node\<lparr>parents := child_parents_cp'\<rparr>) in
              Inr (case g1 parent_id of
                     None \<Rightarrow> g1
                   | Some n \<Rightarrow> g1(parent_id \<mapsto> n\<lparr>children := parent_children_cp'\<rparr>)))))))))))"

definition connect ::
  "budget \<Rightarrow> 'id \<Rightarrow> 'id \<Rightarrow> ('id, 'v) genealogy \<Rightarrow> (error + unit) \<times> ('id, 'v) genealogy" where
  "connect b child_id parent_id s =
     (case connect_graph b (graph_m s) child_id parent_id of
        Inl e \<Rightarrow> (Inl e, s)
      | Inr g' \<Rightarrow> (Inr (), s\<lparr>graph_m := g'\<rparr>))"

section \<open>Removal\<close>

text \<open>
  The first loop of \<^verbatim>\<open>remove_helper\<close>: for every parent of the node, in ascending
  order, \<^verbatim>\<open>copied_graph.at(*it).children.erase(graph.at(id).virus)\<close>. The loop
  condition reads \<^verbatim>\<open>copied_graph.at(id)\<close> on every round; \<open>g0\<close> is the member
  \<^verbatim>\<open>graph\<close>, which the helper reads and never writes.
\<close>

fun detach_parents ::
  "budget \<Rightarrow> 'id graph_t \<Rightarrow> 'id \<Rightarrow> 'id list \<Rightarrow> 'id graph_t
     \<Rightarrow> error + 'id graph_t \<times> budget" where
  "detach_parents b g0 k [] cg = bindE (at_b b cg k) (\<lambda>(nd, b'). Inr (cg, b'))"
| "detach_parents b g0 k (p # ps) cg =
     bindE (at_b b cg k) (\<lambda>(nd, b0).
     bindE (at_b b0 cg p) (\<lambda>(np, b1).
     bindE (at_b b1 g0 k) (\<lambda>(n0, b2).
     bindE (set_erase_b b2 (virus n0) (children np)) (\<lambda>(cs, b3).
       detach_parents b3 g0 k ps (cg(p \<mapsto> np\<lparr>children := cs\<rparr>))))))"

text \<open>
  The second loop, over the copy of the children taken on entry. \<open>rec\<close> is the
  recursive call of \<^verbatim>\<open>remove_helper\<close>, which takes the graph by value; it gives
  \<open>None\<close> when the recursion is deeper than the fuel allows.
\<close>

fun children_loop ::
  "(budget \<Rightarrow> 'id graph_t \<Rightarrow> 'id \<Rightarrow> (error + 'id graph_t \<times> budget) option)
     \<Rightarrow> budget \<Rightarrow> 'id graph_t \<Rightarrow> 'id \<Rightarrow> 'id list \<Rightarrow> 'id graph_t
     \<Rightarrow> (error + 'id graph_t \<times> budget) option" where
  "children_loop rec b g0 k [] cg = Some (Inr (cg, b))"
| "children_loop rec b g0 k (c # cs) cg =
     (case at_b b cg c of
        Inl e \<Rightarrow> Some (Inl e)
      | Inr (nc, b1) \<Rightarrow>
          if card (parents nc) = 1 then
            (case copy_b b1 cg of
               Inl e \<Rightarrow> Some (Inl e)
             | Inr (arg, b2) \<Rightarrow>
                 (case rec b2 arg c of
                    None \<Rightarrow> None
                  | Some (Inl e) \<Rightarrow> Some (Inl e)
                  | Some (Inr (tmp, b3)) \<Rightarrow> children_loop rec b3 g0 k cs tmp))
          else
            (case bindE (at_b b1 cg c) (\<lambda>(nc', b2).
                  bindE (at_b b2 g0 k) (\<lambda>(n0, b3).
                  bindE (set_erase_b b3 (virus n0) (parents nc')) (\<lambda>(ps, b4).
                    Inr (cg(c \<mapsto> nc'\<lparr>parents := ps\<rparr>), b4)))) of
               Inl e \<Rightarrow> Some (Inl e)
             | Inr (cg', b') \<Rightarrow> children_loop rec b' g0 k cs cg'))"

text \<open>
  \<^verbatim>\<open>remove_helper(copied_graph, id)\<close>. The recursion follows the graph and need not
  end on a graph that is not well formed, so the first argument bounds its depth.
\<close>

primrec remove_helper ::
  "nat \<Rightarrow> budget \<Rightarrow> ('id::linorder) graph_t \<Rightarrow> 'id graph_t \<Rightarrow> 'id
     \<Rightarrow> (error + 'id graph_t \<times> budget) option" where
  "remove_helper 0 = (\<lambda>b g0 cg k. None)"
| "remove_helper (Suc n) = (\<lambda>b g0 cg k.
     case bindE (at_b b cg k) (\<lambda>(nd, b1). copy_b b1 (children nd)) of
       Inl e \<Rightarrow> Some (Inl e)
     | Inr (children_set_copy, b2) \<Rightarrow>
         (case bindE (at_b b2 cg k) (\<lambda>(nd', b3).
                 detach_parents b3 g0 k (sorted_list_of_set (parents nd')) cg) of
            Inl e \<Rightarrow> Some (Inl e)
          | Inr (cg1, b4) \<Rightarrow>
              (case children_loop (\<lambda>b' g c. remove_helper n b' g0 g c) b4 g0 k
                      (sorted_list_of_set children_set_copy) cg1 of
                 None \<Rightarrow> None
               | Some (Inl e) \<Rightarrow> Some (Inl e)
               | Some (Inr (cg2, b5)) \<Rightarrow>
                   Some (bindE (tick b5) (\<lambda>b6. Inr (cg2(k := None), b6))))))"

text \<open>\<^verbatim>\<open>remove(id)\<close>; \<open>None\<close> when the helper runs out of fuel.\<close>

definition remove_op ::
  "nat \<Rightarrow> budget \<Rightarrow> 'id \<Rightarrow> ('id::linorder, 'v) genealogy
     \<Rightarrow> ((error + unit) \<times> ('id, 'v) genealogy) option" where
  "remove_op n b k s =
     (case exists_b b (graph_m s) k of
        Inl e \<Rightarrow> Some (Inl e, s)
      | Inr (ex, b1) \<Rightarrow>
          if \<not> ex then Some (Inl VirusNotFound, s)
          else (case tick b1 of
            Inl e \<Rightarrow> Some (Inl e, s)
          | Inr b2 \<Rightarrow>
              if k = stem_id s then Some (Inl TriedToRemoveStemVirus, s)
              else (case bindE (copy_b b2 (graph_m s)) (\<lambda>(copied_graph, b3).
                           copy_b b3 copied_graph) of
                Inl e \<Rightarrow> Some (Inl e, s)
              | Inr (arg, b4) \<Rightarrow>
                  (case remove_helper n b4 (graph_m s) arg k of
                     None \<Rightarrow> None
                   | Some (Inl e) \<Rightarrow> Some (Inl e, s)
                   | Some (Inr (tmp, b5)) \<Rightarrow> Some (Inr (), s\<lparr>graph_m := tmp\<rparr>)))))"

section \<open>Payload lookup and the children iterator\<close>

text \<open>
  \<open>Virus\<close> is the constructor of the payload from an identifier and \<open>get_id\<close> its
  accessor. \<^verbatim>\<open>virus_set.insert(v)\<close> keeps the element already stored under the
  identifier of \<open>v\<close>; \<^verbatim>\<open>*virus_set.find(id)\<close> converts the identifier to a payload
  and reads the element stored under its identifier.
\<close>

definition vs_insert_b ::
  "('v \<Rightarrow> 'id) \<Rightarrow> budget \<Rightarrow> 'v \<Rightarrow> ('id, 'v) virus_set_t
     \<Rightarrow> error + ('id, 'v) virus_set_t \<times> budget" where
  "vs_insert_b get_id b v vs = bindE (tick b)
     (\<lambda>b'. Inr (case vs (get_id v) of None \<Rightarrow> vs(get_id v \<mapsto> v) | Some w \<Rightarrow> vs, b'))"

definition vs_find_b ::
  "('id \<Rightarrow> 'v) \<Rightarrow> ('v \<Rightarrow> 'id) \<Rightarrow> budget \<Rightarrow> 'id \<Rightarrow> ('id, 'v) virus_set_t \<Rightarrow> error + 'v" where
  "vs_find_b Virus get_id b k vs =
     bindE (copy_b b (Virus k)) (\<lambda>(key, b1).
     bindE (tick b1) (\<lambda>b2.
       case vs (get_id key) of None \<Rightarrow> Inl EndDeref | Some w \<Rightarrow> Inr w))"

text \<open>\<^verbatim>\<open>operator[]\<close>: the cache is a mutable member and keeps what was inserted.\<close>

definition lookup ::
  "('id \<Rightarrow> 'v) \<Rightarrow> ('v \<Rightarrow> 'id) \<Rightarrow> budget \<Rightarrow> ('id, 'v) genealogy \<Rightarrow> 'id
     \<Rightarrow> (error + 'v) \<times> ('id, 'v) genealogy" where
  "lookup Virus get_id b s k =
     (case tick b of
        Inl e \<Rightarrow> (Inl e, s)
      | Inr b1 \<Rightarrow>
          (case graph_m s k of
             None \<Rightarrow> (Inl VirusNotFound, s)
           | Some n \<Rightarrow>
               (case bindE (copy_b b1 (Virus (virus n))) (\<lambda>(v, b2).
                       vs_insert_b get_id b2 v (virus_set s)) of
                  Inl e \<Rightarrow> (Inl e, s)
                | Inr (vs', b3) \<Rightarrow>
                    (vs_find_b Virus get_id b3 (virus n) vs', s\<lparr>virus_set := vs'\<rparr>))))"

text \<open>
  \<^verbatim>\<open>children_iterator\<close>: an iterator into the children \<^verbatim>\<open>std::set\<close> of one node (the
  elements of that set in ascending order, and a position among them) with its own
  copy of the cache.
\<close>

record ('id, 'v) children_iterator =
  children_vec_it :: nat
  it_range :: "'id list"
  it_virus_set :: "('id, 'v) virus_set_t"

definition get_children_begin ::
  "budget \<Rightarrow> ('id::linorder, 'v) genealogy \<Rightarrow> 'id \<Rightarrow> error + ('id, 'v) children_iterator" where
  "get_children_begin b s k =
     bindE (exists_b b (graph_m s) k) (\<lambda>(ex, b1).
       if \<not> ex then Inl VirusNotFound
       else bindE (find_b b1 (graph_m s) k) (\<lambda>(n, b2).
            bindE (copy_b b2 (virus_set s)) (\<lambda>(vs, b3).
              Inr \<lparr>children_vec_it = 0,
                   it_range = sorted_list_of_set (children n),
                   it_virus_set = vs\<rparr>)))"

definition get_children_end ::
  "budget \<Rightarrow> ('id::linorder, 'v) genealogy \<Rightarrow> 'id \<Rightarrow> error + ('id, 'v) children_iterator" where
  "get_children_end b s k =
     bindE (exists_b b (graph_m s) k) (\<lambda>(ex, b1).
       if \<not> ex then Inl VirusNotFound
       else bindE (find_b b1 (graph_m s) k) (\<lambda>(n, b2).
            bindE (copy_b b2 (virus_set s)) (\<lambda>(vs, b3).
              Inr \<lparr>children_vec_it = length (sorted_list_of_set (children n)),
                   it_range = sorted_list_of_set (children n),
                   it_virus_set = vs\<rparr>)))"

text \<open>\<^verbatim>\<open>operator*\<close>; at the end position the C++ is undefined, here an error.\<close>

definition it_deref ::
  "('id \<Rightarrow> 'v) \<Rightarrow> ('v \<Rightarrow> 'id) \<Rightarrow> budget \<Rightarrow> ('id, 'v) children_iterator
     \<Rightarrow> error + 'v \<times> ('id, 'v) children_iterator" where
  "it_deref Virus get_id b it =
     (if children_vec_it it < length (it_range it) then
        (let c = it_range it ! children_vec_it it in
         bindE (copy_b b (Virus c)) (\<lambda>(v, b1).
         bindE (vs_insert_b get_id b1 v (it_virus_set it)) (\<lambda>(vs', b2).
         bindE (vs_find_b Virus get_id b2 c vs') (\<lambda>w.
           Inr (w, it\<lparr>it_virus_set := vs'\<rparr>)))))
      else Inl EndDeref)"

text \<open>\<^verbatim>\<open>operator++\<close> and \<^verbatim>\<open>operator==\<close>.\<close>

definition it_incr :: "('id, 'v) children_iterator \<Rightarrow> ('id, 'v) children_iterator" where
  "it_incr it = it\<lparr>children_vec_it := children_vec_it it + 1\<rparr>"

definition it_eq :: "('id, 'v) children_iterator \<Rightarrow> ('id, 'v) children_iterator \<Rightarrow> bool" where
  "it_eq a other = (children_vec_it other = children_vec_it a)"

text \<open>
  The loop of a caller, \<^verbatim>\<open>for (it = first; !(it == fin); ++it) out.push_back(*it)\<close>,
  with a payload type that does not throw.
\<close>

function iterate_children ::
  "('id \<Rightarrow> 'v) \<Rightarrow> ('v \<Rightarrow> 'id) \<Rightarrow> ('id, 'v) children_iterator \<Rightarrow> ('id, 'v) children_iterator
     \<Rightarrow> error + 'v list" where
  "iterate_children Virus get_id it fin =
     (if it_eq it fin then Inr []
      else (case it_deref Virus get_id None it of
              Inl e \<Rightarrow> Inl e
            | Inr (w, it') \<Rightarrow>
                bindE (iterate_children Virus get_id (it_incr it') fin)
                  (\<lambda>ws. Inr (w # ws))))"
  by pat_completeness auto
termination
proof (relation "measure (\<lambda>(Virus, get_id, it, fin). length (it_range it) - children_vec_it it)")
  show "wf (measure (\<lambda>(Virus, get_id, it, fin).
              length (it_range it) - children_vec_it it))"
    by simp
next
  fix Virus :: "'id \<Rightarrow> 'v" and get_id :: "'v \<Rightarrow> 'id"
    and it fin :: "('id, 'v) children_iterator" and x w it'
  assume "it_deref Virus get_id None it = Inr x" and "(w, it') = x"
  then have "children_vec_it it < length (it_range it)
      \<and> it_range it' = it_range it \<and> children_vec_it it' = children_vec_it it"
    by (auto simp: it_deref_def bindE_def copy_b_def vs_insert_b_def vs_find_b_def tick_def
          Let_def split: if_splits option.splits)
  then show "((Virus, get_id, it_incr it', fin), (Virus, get_id, it, fin))
      \<in> measure (\<lambda>(Virus, get_id, it, fin). length (it_range it) - children_vec_it it)"
    by (auto simp: it_incr_def)
qed

section \<open>Well-formed graphs and reachable states\<close>

text \<open>
  The representation invariants of the class: a node is stored under its own
  identifier, the sets are finite, \<open>p\<close> lists \<open>c\<close> as a child exactly when \<open>c\<close>
  lists \<open>p\<close> as a parent (both being nodes of the graph), every node other than the
  stem has a parent, and the stem is a node without parents.
\<close>

definition virus_ok :: "'id graph_t \<Rightarrow> bool" where
  "virus_ok g \<longleftrightarrow> (\<forall>k n. g k = Some n \<longrightarrow> virus n = k)"

definition finite_ok :: "'id graph_t \<Rightarrow> bool" where
  "finite_ok g \<longleftrightarrow> (\<forall>k n. g k = Some n \<longrightarrow> finite (children n) \<and> finite (parents n))"

definition symmetric :: "'id graph_t \<Rightarrow> bool" where
  "symmetric g \<longleftrightarrow>
     (\<forall>p c. (\<exists>np. g p = Some np \<and> c \<in> children np)
          \<longleftrightarrow> (\<exists>nc. g c = Some nc \<and> p \<in> parents nc))"

definition nonstem_parents :: "('id, 'v) genealogy \<Rightarrow> bool" where
  "nonstem_parents s \<longleftrightarrow>
     (\<forall>k n. graph_m s k = Some n \<longrightarrow> k \<noteq> stem_id s \<longrightarrow> parents n \<noteq> {})"

definition stem_ok :: "('id, 'v) genealogy \<Rightarrow> bool" where
  "stem_ok s \<longleftrightarrow> (\<exists>n. graph_m s (stem_id s) = Some n \<and> parents n = {})"

definition cache_ok :: "('id \<Rightarrow> 'v) \<Rightarrow> ('id, 'v) virus_set_t \<Rightarrow> bool" where
  "cache_ok Virus vs \<longleftrightarrow> (\<forall>k v. vs k = Some v \<longrightarrow> v = Virus k)"

definition wf_genealogy :: "('id, 'v) genealogy \<Rightarrow> bool" where
  "wf_genealogy s \<longleftrightarrow> virus_ok (graph_m s) \<and> finite_ok (graph_m s) \<and> symmetric (graph_m s)
     \<and> nonstem_parents s"

text \<open>
  The states an object can be in: the constructor, then any calls of the public
  member functions, with any behaviour of the parameter type, whether they return or
  throw.
\<close>

inductive reachable ::
  "('id \<Rightarrow> 'v) \<Rightarrow> ('v \<Rightarrow> 'id) \<Rightarrow> ('id::linorder, 'v) genealogy \<Rightarrow> bool"
  for Virus :: "'id \<Rightarrow> 'v" and get_id :: "'v \<Rightarrow> 'id" where
  r_construct: "reachable Virus get_id (construct stem)"
| r_create: "reachable Virus get_id s \<Longrightarrow> create b k parent_id s = (r, s')
     \<Longrightarrow> reachable Virus get_id s'"
| r_create_multi: "reachable Virus get_id s \<Longrightarrow> create_multi b k parent_ids s = (r, s')
     \<Longrightarrow> reachable Virus get_id s'"
| r_connect: "reachable Virus get_id s \<Longrightarrow> connect b child_id parent_id s = (r, s')
     \<Longrightarrow> reachable Virus get_id s'"
| r_remove: "reachable Virus get_id s \<Longrightarrow> remove_op n b k s = Some (r, s')
     \<Longrightarrow> reachable Virus get_id s'"
| r_lookup: "reachable Virus get_id s \<Longrightarrow> lookup Virus get_id b s k = (q, s')
     \<Longrightarrow> reachable Virus get_id s'"

text \<open>The same, when \<^verbatim>\<open>connect\<close> is never called with the stem as the child.\<close>

inductive reachable_guarded ::
  "('id \<Rightarrow> 'v) \<Rightarrow> ('v \<Rightarrow> 'id) \<Rightarrow> ('id::linorder, 'v) genealogy \<Rightarrow> bool"
  for Virus :: "'id \<Rightarrow> 'v" and get_id :: "'v \<Rightarrow> 'id" where
  g_construct: "reachable_guarded Virus get_id (construct stem)"
| g_create: "reachable_guarded Virus get_id s \<Longrightarrow> create b k parent_id s = (r, s')
     \<Longrightarrow> reachable_guarded Virus get_id s'"
| g_create_multi: "reachable_guarded Virus get_id s
     \<Longrightarrow> create_multi b k parent_ids s = (r, s')
     \<Longrightarrow> reachable_guarded Virus get_id s'"
| g_connect: "reachable_guarded Virus get_id s \<Longrightarrow> child_id \<noteq> stem_id s
     \<Longrightarrow> connect b child_id parent_id s = (r, s')
     \<Longrightarrow> reachable_guarded Virus get_id s'"
| g_remove: "reachable_guarded Virus get_id s \<Longrightarrow> remove_op n b k s = Some (r, s')
     \<Longrightarrow> reachable_guarded Virus get_id s'"
| g_lookup: "reachable_guarded Virus get_id s \<Longrightarrow> lookup Virus get_id b s k = (q, s')
     \<Longrightarrow> reachable_guarded Virus get_id s'"

text \<open>
  How one graph comes from another by erasing: \<open>shrink X g g'\<close> says that every node
  of \<open>g'\<close> is a node of \<open>g\<close> that lost only identifiers of \<open>X\<close> from its two sets
  and still has a parent if it had one, and that the nodes that are gone are in
  \<open>X\<close>. \<open>erased K g g'\<close> says that a node that is gone is no longer listed by the
  nodes that are left (those of \<open>K\<close> apart) and were its parents or children.
\<close>

definition node_shrink :: "'id set \<Rightarrow> 'id node \<Rightarrow> 'id node \<Rightarrow> bool" where
  "node_shrink X n n' \<longleftrightarrow>
     virus n' = virus n
     \<and> children n' \<subseteq> children n \<and> parents n' \<subseteq> parents n
     \<and> children n - X \<subseteq> children n' \<and> parents n - X \<subseteq> parents n'
     \<and> (parents n \<noteq> {} \<longrightarrow> parents n' \<noteq> {})"

definition shrink :: "'id set \<Rightarrow> 'id graph_t \<Rightarrow> 'id graph_t \<Rightarrow> bool" where
  "shrink X g g' \<longleftrightarrow>
     (\<forall>k n'. g' k = Some n' \<longrightarrow> (\<exists>n. g k = Some n \<and> node_shrink X n n'))
     \<and> (\<forall>k. g k \<noteq> None \<longrightarrow> g' k = None \<longrightarrow> k \<in> X)"

definition erased :: "'id set \<Rightarrow> 'id graph_t \<Rightarrow> 'id graph_t \<Rightarrow> bool" where
  "erased K g g' \<longleftrightarrow>
     (\<forall>r q nr nq. g r = Some nr \<longrightarrow> g' r = None \<longrightarrow> g' q = Some nq \<longrightarrow> q \<notin> K \<longrightarrow>
        (q \<in> parents nr \<longrightarrow> r \<notin> children nq) \<and> (q \<in> children nr \<longrightarrow> r \<notin> parents nq))"

text \<open>No node is its own parent: \<^verbatim>\<open>connect(c, c)\<close> is the only way to such an edge.\<close>

definition no_self_parent :: "'id graph_t \<Rightarrow> bool" where
  "no_self_parent g \<longleftrightarrow> (\<forall>k n. g k = Some n \<longrightarrow> k \<notin> parents n)"

text \<open>
  The nodes that \<^verbatim>\<open>remove(x)\<close> is meant to take away: \<open>x\<close>, and every node that has
  parents all of which are taken away.
\<close>

inductive_set cascade :: "'id graph_t \<Rightarrow> 'id \<Rightarrow> 'id set"
  for g :: "'id graph_t" and x :: 'id where
  base: "x \<in> cascade g x"
| step: "g q = Some nq \<Longrightarrow> parents nq \<noteq> {} \<Longrightarrow> (\<And>p. p \<in> parents nq \<Longrightarrow> p \<in> cascade g x)
         \<Longrightarrow> q \<in> cascade g x"

text \<open>
  For the termination of the cascade: \<open>D\<close> stands for the nodes whose removal has
  begun and not ended. No node outside \<open>D\<close> lists a node of \<open>D\<close> as a child, and a
  node that a node outside \<open>D\<close> lists as a child has that node among its parents.
\<close>

definition listing_ok :: "'id set \<Rightarrow> 'id graph_t \<Rightarrow> bool" where
  "listing_ok D g \<longleftrightarrow>
     (\<forall>y n q. g y = Some n \<longrightarrow> y \<notin> D \<longrightarrow> q \<in> children n \<longrightarrow>
        q \<notin> D \<and> (\<forall>nq. g q = Some nq \<longrightarrow> y \<in> parents nq))"

section \<open>Example genealogies\<close>

text \<open>
  Small genealogies over natural numbers, built with the public operations from the
  stem \<open>0\<close>: the stem with one child \<open>1\<close>; the same after \<^verbatim>\<open>connect(0, 1)\<close>, which
  makes the child a parent of the stem; and a genealogy in which \<open>2\<close> is a child of
  \<open>1\<close> and \<open>3\<close> is a child of both \<open>1\<close> and \<open>2\<close>.
\<close>

definition ex_chain :: "(nat, nat) genealogy" where
  "ex_chain = snd (create None 1 0 (construct 0))"

definition ex_stem_cycle :: "(nat, nat) genealogy" where
  "ex_stem_cycle = snd (connect None 0 1 ex_chain)"

definition ex_diamond :: "(nat, nat) genealogy" where
  "ex_diamond = snd (create_multi None 3 [1, 2] (snd (create None 2 1 ex_chain)))"

text \<open>
  The second example after \<^verbatim>\<open>remove(1)\<close>, and the third after \<^verbatim>\<open>remove(1)\<close>.
\<close>

definition ex_stem_removed :: "(nat, nat) genealogy" where
  "ex_stem_removed = snd (the (remove_op (Suc (Suc 0)) None 1 ex_stem_cycle))"

definition ex_diamond_removed :: "(nat, nat) genealogy" where
  "ex_diamond_removed = snd (the (remove_op (Suc (Suc 0)) None 1 ex_diamond))"

text \<open>
  A genealogy in which \<open>2\<close> is a child of the stem and of \<open>1\<close>, and the same after
  \<^verbatim>\<open>remove(1)\<close>.
\<close>

definition ex_shared :: "(nat, nat) genealogy" where
  "ex_shared = snd (create_multi None 2 [0, 1] ex_chain)"

definition ex_shared_removed :: "(nat, nat) genealogy" where
  "ex_shared_removed = snd (the (remove_op (Suc 0) None 1 ex_shared))"

text \<open>
  A genealogy with a node that is its own parent: \<open>2\<close> is a child of \<open>1\<close> and, by
  \<^verbatim>\<open>connect(2, 2)\<close>, of itself, and \<open>3\<close> is a child of the stem and of \<open>2\<close>; then
  \<^verbatim>\<open>remove(1)\<close>, after which \<open>2\<close> is its own only parent; then \<^verbatim>\<open>remove(2)\<close>.
\<close>

definition ex_loop_built :: "(nat, nat) genealogy" where
  "ex_loop_built =
     snd (create_multi None 3 [0, 2] (snd (connect None 2 2 (snd (create None 2 1 ex_chain)))))"

definition ex_loop :: "(nat, nat) genealogy" where
  "ex_loop = snd (the (remove_op (Suc (Suc 0)) None 1 ex_loop_built))"

definition ex_loop_removed :: "(nat, nat) genealogy" where
  "ex_loop_removed = snd (the (remove_op (Suc (Suc 0)) None 2 ex_loop))"

text \<open>
  The same with \<open>3\<close> a child of \<open>2\<close> only: after \<^verbatim>\<open>remove(1)\<close>, \<open>2\<close> is its own only
  parent and the only parent of \<open>3\<close>.
\<close>

definition ex_loop_only :: "(nat, nat) genealogy" where
  "ex_loop_only = snd (the (remove_op (Suc (Suc 0)) None 1
      (snd (create None 3 2 (snd (connect None 2 2 (snd (create None 2 1 ex_chain))))))))"

section \<open>Basic facts about the primitive operations\<close>

lemma bindE_Inl [simp]: "bindE (Inl e) f = Inl e"
  by (simp add: bindE_def)

lemma bindE_Inr [simp]: "bindE (Inr x) f = f x"
  by (simp add: bindE_def)

lemma bindE_eq_Inr: "bindE m f = Inr y \<longleftrightarrow> (\<exists>x. m = Inr x \<and> f x = Inr y)"
  by (cases m) simp_all

lemma tick_None [simp]: "tick None = Inr None"
  by (simp add: tick_def)

lemma tick_Inl: "tick b = Inl e \<Longrightarrow> e = UserException"
  by (auto simp: tick_def split: option.splits nat.splits)

lemma exists_b_None [simp]: "exists_b None g k = Inr (g k \<noteq> None, None)"
  by (simp add: exists_b_def)

lemma find_b_None [simp]:
  "find_b None g k = (case g k of None \<Rightarrow> Inl EndDeref | Some n \<Rightarrow> Inr (n, None))"
  by (simp add: find_b_def)

lemma at_b_None [simp]:
  "at_b None g k = (case g k of None \<Rightarrow> Inl OutOfRange | Some n \<Rightarrow> Inr (n, None))"
  by (simp add: at_b_def)

lemma set_insert_b_None [simp]: "set_insert_b None x A = Inr (insert x A, None)"
  by (simp add: set_insert_b_def)

lemma set_erase_b_None [simp]: "set_erase_b None x A = Inr (A - {x}, None)"
  by (simp add: set_erase_b_def)

lemma set_contains_b_None [simp]: "set_contains_b None x A = Inr (x \<in> A, None)"
  by (simp add: set_contains_b_def)

lemma copy_b_None [simp]: "copy_b None x = Inr (x, None)"
  by (simp add: copy_b_def)

lemma map_insert_b_None [simp]:
  "map_insert_b None g k n =
     (case g k of None \<Rightarrow> Inr (g(k \<mapsto> n), n, None) | Some m \<Rightarrow> Inr (g, m, None))"
  by (simp add: map_insert_b_def)

lemma exists_b_Inr: "exists_b b g k = Inr (r, b') \<Longrightarrow> r = (g k \<noteq> None)"
  by (auto simp: exists_b_def bindE_eq_Inr)

lemma find_b_Inr: "find_b b g k = Inr (n, b') \<Longrightarrow> g k = Some n"
  by (auto simp: find_b_def bindE_eq_Inr split: option.splits)

lemma at_b_Inr: "at_b b g k = Inr (n, b') \<Longrightarrow> g k = Some n"
  by (auto simp: at_b_def bindE_eq_Inr split: option.splits)

lemma set_insert_b_Inr: "set_insert_b b x A = Inr (B, b') \<Longrightarrow> B = insert x A"
  by (auto simp: set_insert_b_def bindE_eq_Inr)

lemma set_erase_b_Inr: "set_erase_b b x A = Inr (B, b') \<Longrightarrow> B = A - {x}"
  by (auto simp: set_erase_b_def bindE_eq_Inr)

lemma set_contains_b_Inr: "set_contains_b b x A = Inr (r, b') \<Longrightarrow> r = (x \<in> A)"
  by (auto simp: set_contains_b_def bindE_eq_Inr)

lemma copy_b_Inr: "copy_b b x = Inr (y, b') \<Longrightarrow> y = x"
  by (auto simp: copy_b_def bindE_eq_Inr)

lemma map_insert_b_Inr:
  "map_insert_b b g k n = Inr (g1, m, b') \<Longrightarrow>
     (g k = None \<and> g1 = g(k \<mapsto> n) \<and> m = n) \<or> (g k = Some m \<and> g1 = g)"
  by (cases "g k") (auto simp: map_insert_b_def bindE_eq_Inr)

section \<open>The two overloads of \<^verbatim>\<open>create\<close>\<close>

text \<open>
  C10: with a parameter type that does not throw, \<^verbatim>\<open>create(id, {p})\<close> with a
  one-element vector and \<^verbatim>\<open>create(id, p)\<close> give the same outcome (the same
  exception or a normal return) and leave the same state, from every state.
\<close>

theorem create_single_parent_list_equiv:
  "create_multi None k [p] s = create None k p s"
  by (auto simp: create_multi_def create_def create_try_def split: option.splits)

section \<open>Erasing from a graph\<close>

lemma node_shrink_refl: "node_shrink X n n"
  by (auto simp: node_shrink_def)

lemma node_shrink_mono: "node_shrink X n n' \<Longrightarrow> X \<subseteq> Y \<Longrightarrow> node_shrink Y n n'"
  unfolding node_shrink_def by blast

lemma node_shrink_trans:
  assumes a: "node_shrink X n n1" and b: "node_shrink Y n1 n2"
  shows "node_shrink (X \<union> Y) n n2"
proof -
  from a have a1: "virus n1 = virus n" and a2: "children n1 \<subseteq> children n"
    and a3: "parents n1 \<subseteq> parents n" and a4: "children n - X \<subseteq> children n1"
    and a5: "parents n - X \<subseteq> parents n1" and a6: "parents n \<noteq> {} \<longrightarrow> parents n1 \<noteq> {}"
    by (simp_all add: node_shrink_def)
  from b have b1: "virus n2 = virus n1" and b2: "children n2 \<subseteq> children n1"
    and b3: "parents n2 \<subseteq> parents n1" and b4: "children n1 - Y \<subseteq> children n2"
    and b5: "parents n1 - Y \<subseteq> parents n2" and b6: "parents n1 \<noteq> {} \<longrightarrow> parents n2 \<noteq> {}"
    by (simp_all add: node_shrink_def)
  have "virus n2 = virus n" using a1 b1 by simp
  moreover have "children n2 \<subseteq> children n" using a2 b2 by blast
  moreover have "parents n2 \<subseteq> parents n" using a3 b3 by blast
  moreover have "children n - (X \<union> Y) \<subseteq> children n2" using a4 b4 by blast
  moreover have "parents n - (X \<union> Y) \<subseteq> parents n2" using a5 b5 by blast
  moreover have "parents n \<noteq> {} \<longrightarrow> parents n2 \<noteq> {}" using a6 b6 by blast
  ultimately show ?thesis by (simp add: node_shrink_def)
qed

lemma shrink_refl: "shrink X g g"
  by (auto simp: shrink_def node_shrink_refl)

lemma shrink_mono: "shrink X g g' \<Longrightarrow> X \<subseteq> Y \<Longrightarrow> shrink Y g g'"
  unfolding shrink_def by (meson node_shrink_mono subsetD)

lemma shrink_node: "shrink X g g' \<Longrightarrow> g' k = Some n' \<Longrightarrow> \<exists>n. g k = Some n \<and> node_shrink X n n'"
  unfolding shrink_def by blast

lemma shrink_dom_subset: "shrink X g g' \<Longrightarrow> dom g' \<subseteq> dom g"
  unfolding shrink_def by blast

lemma shrink_gone: "shrink X g g' \<Longrightarrow> g k = Some n \<Longrightarrow> g' k = None \<Longrightarrow> k \<in> X"
  unfolding shrink_def by blast

lemma shrink_trans:
  assumes a: "shrink X g g1" and b: "shrink Y g1 g2"
  shows "shrink (X \<union> Y) g g2"
  unfolding shrink_def
proof (intro conjI allI impI)
  fix k n2
  assume k2: "g2 k = Some n2"
  from shrink_node[OF b k2] obtain n1 where n1: "g1 k = Some n1" "node_shrink Y n1 n2"
    by blast
  from shrink_node[OF a n1(1)] obtain n where n: "g k = Some n" "node_shrink X n n1"
    by blast
  show "\<exists>n. g k = Some n \<and> node_shrink (X \<union> Y) n n2"
    using n n1 node_shrink_trans by blast
next
  fix k
  assume "g k \<noteq> None" "g2 k = None"
  then show "k \<in> X \<union> Y"
    using a b unfolding shrink_def by (cases "g1 k") blast+
qed

lemma shrink_upd_children:
  "g p = Some np \<Longrightarrow> shrink {k} g (g(p \<mapsto> np\<lparr>children := children np - {k}\<rparr>))"
  unfolding shrink_def node_shrink_def by auto

lemma card_not_one_diff:
  assumes "card A \<noteq> Suc 0" and "A \<noteq> {}"
  shows "A - {k} \<noteq> {}"
proof
  assume "A - {k} = {}"
  with assms(2) have "A = {k}" by blast
  with assms(1) show False by simp
qed

lemma shrink_upd_parents:
  assumes "g c = Some nc" and "card (parents nc) \<noteq> 1"
  shows "shrink {k} g (g(c \<mapsto> nc\<lparr>parents := parents nc - {k}\<rparr>))"
proof -
  have "node_shrink {k} nc (nc\<lparr>parents := parents nc - {k}\<rparr>)"
    using assms(2) card_not_one_diff[of "parents nc" k] by (auto simp: node_shrink_def)
  with assms(1) show ?thesis
    unfolding shrink_def by (auto simp: node_shrink_refl)
qed

lemma shrink_erase: "shrink {k} g (g(k := None))"
  unfolding shrink_def by (auto simp: node_shrink_refl)

lemma finite_ok_shrink: "finite_ok g \<Longrightarrow> shrink X g g' \<Longrightarrow> finite_ok g'"
  unfolding finite_ok_def shrink_def node_shrink_def
  by (meson finite_subset)

lemma erased_weaken: "erased K g g' \<Longrightarrow> K \<subseteq> K' \<Longrightarrow> erased K' g g'"
  unfolding erased_def by blast

lemma erased_same_dom: "dom g' = dom g \<Longrightarrow> erased K g g'"
  unfolding erased_def by (metis domI domIff)

lemma erased_trans:
  assumes e1: "erased K g g1" and s1: "shrink X g g1" and X: "X \<subseteq> K \<union> (dom g - dom g1)"
    and e2: "erased K g1 g2" and s2: "shrink Y g1 g2"
  shows "erased K g g2"
  unfolding erased_def
proof (intro allI impI)
  fix r q nr nq
  assume r: "g r = Some nr" and r2: "g2 r = None" and q2: "g2 q = Some nq" and qK: "q \<notin> K"
  from shrink_node[OF s2 q2] obtain nq1 where q1: "g1 q = Some nq1"
      "children nq \<subseteq> children nq1" "parents nq \<subseteq> parents nq1"
    unfolding node_shrink_def by blast
  have qX: "q \<notin> X" using X qK q1(1) by auto
  show "(q \<in> parents nr \<longrightarrow> r \<notin> children nq) \<and> (q \<in> children nr \<longrightarrow> r \<notin> parents nq)"
  proof (cases "g1 r")
    case None
    with e1 r q1(1) qK
    have "(q \<in> parents nr \<longrightarrow> r \<notin> children nq1) \<and> (q \<in> children nr \<longrightarrow> r \<notin> parents nq1)"
      unfolding erased_def by blast
    with q1 show ?thesis by blast
  next
    case (Some nr1)
    from shrink_node[OF s1 Some] r
    have sub: "children nr - X \<subseteq> children nr1" "parents nr - X \<subseteq> parents nr1"
      unfolding node_shrink_def by auto
    from e2 Some r2 q2 qK
    have "(q \<in> parents nr1 \<longrightarrow> r \<notin> children nq) \<and> (q \<in> children nr1 \<longrightarrow> r \<notin> parents nq)"
      unfolding erased_def by blast
    with sub qX show ?thesis by blast
  qed
qed

lemma detach_parents_Inr:
  assumes "detach_parents b g0 k ps cg = Inr (cg1, b')" and "virus_ok g0"
  shows "cg1 = (\<lambda>q. if q \<in> set ps
                     then map_option (\<lambda>n. n\<lparr>children := children n - {k}\<rparr>) (cg q)
                     else cg q)
         \<and> (\<forall>p\<in>set ps. cg p \<noteq> None)"
  using assms(1)
proof (induction ps arbitrary: b cg)
  case Nil
  then show ?case by (auto simp: bindE_eq_Inr)
next
  case (Cons p ps)
  from Cons.prems obtain nd b0 np b1 n0 b2 cs b3 where
    st: "at_b b cg k = Inr (nd, b0)" "at_b b0 cg p = Inr (np, b1)"
        "at_b b1 g0 k = Inr (n0, b2)"
        "set_erase_b b2 (virus n0) (children np) = Inr (cs, b3)"
        "detach_parents b3 g0 k ps (cg(p \<mapsto> np\<lparr>children := cs\<rparr>)) = Inr (cg1, b')"
    by (auto simp: bindE_eq_Inr)
  have p: "cg p = Some np" using st(2) by (rule at_b_Inr)
  have "virus n0 = k" using at_b_Inr[OF st(3)] assms(2) by (simp add: virus_ok_def)
  with st(4) have cs: "cs = children np - {k}" by (auto dest: set_erase_b_Inr)
  from Cons.IH[OF st(5)] have
    ih: "cg1 = (\<lambda>q. if q \<in> set ps
                     then map_option (\<lambda>n. n\<lparr>children := children n - {k}\<rparr>)
                            ((cg(p \<mapsto> np\<lparr>children := cs\<rparr>)) q)
                     else (cg(p \<mapsto> np\<lparr>children := cs\<rparr>)) q)"
    and dom: "\<forall>q\<in>set ps. (cg(p \<mapsto> np\<lparr>children := cs\<rparr>)) q \<noteq> None"
    by blast+
  have "cg1 = (\<lambda>q. if q \<in> set (p # ps)
                     then map_option (\<lambda>n. n\<lparr>children := children n - {k}\<rparr>) (cg q)
                     else cg q)"
    unfolding ih using p cs by (auto intro!: ext)
  moreover have "\<forall>q\<in>set (p # ps). cg q \<noteq> None"
    using dom p by (auto split: if_splits)
  ultimately show ?case by blast
qed

lemma detach_parents_shrink:
  assumes "detach_parents b g0 k ps cg = Inr (cg1, b')" and "virus_ok g0"
  shows "shrink {k} cg cg1" and "dom cg1 = dom cg"
proof -
  from detach_parents_Inr[OF assms] have
    eq: "cg1 = (\<lambda>q. if q \<in> set ps
                     then map_option (\<lambda>n. n\<lparr>children := children n - {k}\<rparr>) (cg q)
                     else cg q)"
    by blast
  show "shrink {k} cg cg1"
    unfolding shrink_def eq node_shrink_def by (auto split: if_splits)
  show "dom cg1 = dom cg"
    unfolding eq by (auto split: if_splits)
qed

lemma children_loop_spec:
  assumes rec: "\<And>b g c g' b'. rec b g c = Some (Inr (g', b')) \<Longrightarrow> finite_ok g \<Longrightarrow>
            g c \<noteq> None \<and> g' c = None \<and> shrink (dom g - dom g') g g' \<and> erased {} g g'
            \<and> (\<forall>r nr. g r = Some nr \<longrightarrow> g' r = None \<longrightarrow> r \<noteq> c \<longrightarrow> parents nr \<noteq> {})"
    and vok: "virus_ok g0"
  shows "children_loop rec b g0 k cs h = Some (Inr (h', b')) \<Longrightarrow> finite_ok h \<Longrightarrow>
       shrink ({k} \<union> (dom h - dom h')) h h' \<and> erased {k} h h'
       \<and> (\<forall>c\<in>set cs. \<forall>n. h' c = Some n \<longrightarrow> k \<notin> parents n)
       \<and> (\<forall>r nr. h r = Some nr \<longrightarrow> h' r = None \<longrightarrow> parents nr \<noteq> {})"
proof (induction cs arbitrary: b h)
  case Nil
  then have "h' = h" by simp
  then show ?case
    by (auto intro: shrink_mono[OF shrink_refl] erased_same_dom)
next
  case (Cons c cs)
  from Cons.prems(1) obtain nc b1 where at: "at_b b h c = Inr (nc, b1)"
    by (auto split: sum.splits)
  have hc: "h c = Some nc" using at by (rule at_b_Inr)
  show ?case
  proof (cases "card (parents nc) = 1")
    case True
    with Cons.prems(1) at obtain arg b2 tmp b3 where
      st0: "copy_b b1 h = Inr (arg, b2)" "rec b2 arg c = Some (Inr (tmp, b3))"
          "children_loop rec b3 g0 k cs tmp = Some (Inr (h', b'))"
      by (auto split: sum.splits option.splits)
    have "arg = h" using st0(1) by (rule copy_b_Inr)
    with st0 have st: "copy_b b1 h = Inr (h, b2)" "rec b2 h c = Some (Inr (tmp, b3))"
          "children_loop rec b3 g0 k cs tmp = Some (Inr (h', b'))"
      by simp_all
    from rec[OF st(2) Cons.prems(2)] have
      r: "tmp c = None" "shrink (dom h - dom tmp) h tmp" "erased {} h tmp"
         "\<forall>r nr. h r = Some nr \<longrightarrow> tmp r = None \<longrightarrow> r \<noteq> c \<longrightarrow> parents nr \<noteq> {}"
      by blast+
    have fin: "finite_ok tmp" using Cons.prems(2) r(2) by (rule finite_ok_shrink)
    from Cons.IH[OF st(3) fin] have
      ih: "shrink ({k} \<union> (dom tmp - dom h')) tmp h'" "erased {k} tmp h'"
          "\<forall>c\<in>set cs. \<forall>n. h' c = Some n \<longrightarrow> k \<notin> parents n"
          "\<forall>r nr. tmp r = Some nr \<longrightarrow> h' r = None \<longrightarrow> parents nr \<noteq> {}"
      by blast+
    have d1: "dom tmp \<subseteq> dom h" using r(2) by (rule shrink_dom_subset)
    have d2: "dom h' \<subseteq> dom tmp" using ih(1) by (rule shrink_dom_subset)
    have s: "shrink ({k} \<union> (dom h - dom h')) h h'"
      using d1 d2 by (intro shrink_mono[OF shrink_trans[OF r(2) ih(1)]]) blast
    have e: "erased {k} h h'"
      by (rule erased_trans[OF erased_weaken[OF r(3)] r(2) _ ih(2) ih(1)]) blast+
    have c0: "h' c = None" using r(1) d2 by blast
    have l: "\<forall>c'\<in>set (c # cs). \<forall>n. h' c' = Some n \<longrightarrow> k \<notin> parents n"
      using c0 ih(3) by auto
    have pn: "parents nc \<noteq> {}" using True by auto
    have p: "\<forall>r nr. h r = Some nr \<longrightarrow> h' r = None \<longrightarrow> parents nr \<noteq> {}"
    proof (intro allI impI)
      fix r nr assume a: "h r = Some nr" "h' r = None"
      show "parents nr \<noteq> {}"
      proof (cases "tmp r")
        case None
        then show ?thesis using r(4) a(1) pn hc by (cases "r = c") auto
      next
        case (Some nr1)
        with ih(4) a(2) have "parents nr1 \<noteq> {}" by blast
        moreover from shrink_node[OF r(2) Some] a(1) have "parents nr1 \<subseteq> parents nr"
          by (auto simp: node_shrink_def)
        ultimately show ?thesis by blast
      qed
    qed
    from s e l p show ?thesis by blast
  next
    case False
    with Cons.prems(1) at obtain nc' b2 n0 b3 ps b4 where
      st: "at_b b1 h c = Inr (nc', b2)" "at_b b2 g0 k = Inr (n0, b3)"
          "set_erase_b b3 (virus n0) (parents nc') = Inr (ps, b4)"
          "children_loop rec b4 g0 k cs (h(c \<mapsto> nc'\<lparr>parents := ps\<rparr>)) = Some (Inr (h', b'))"
      by (auto simp: bindE_eq_Inr split: sum.splits)
    have nc': "nc' = nc" using at_b_Inr[OF st(1)] hc by simp
    have "virus n0 = k" using at_b_Inr[OF st(2)] vok by (simp add: virus_ok_def)
    with st(3) nc' have ps: "ps = parents nc - {k}" by (auto dest: set_erase_b_Inr)
    define h1 where "h1 = h(c \<mapsto> nc\<lparr>parents := parents nc - {k}\<rparr>)"
    have loop: "children_loop rec b4 g0 k cs h1 = Some (Inr (h', b'))"
      using st(4) nc' ps by (simp add: h1_def)
    have s1: "shrink {k} h h1"
      unfolding h1_def using hc False by (rule shrink_upd_parents)
    have dom1: "dom h1 = dom h" using hc by (auto simp: h1_def)
    have fin: "finite_ok h1" using Cons.prems(2) s1 by (rule finite_ok_shrink)
    from Cons.IH[OF loop fin] have
      ih: "shrink ({k} \<union> (dom h1 - dom h')) h1 h'" "erased {k} h1 h'"
          "\<forall>c\<in>set cs. \<forall>n. h' c = Some n \<longrightarrow> k \<notin> parents n"
          "\<forall>r nr. h1 r = Some nr \<longrightarrow> h' r = None \<longrightarrow> parents nr \<noteq> {}"
      by blast+
    have s: "shrink ({k} \<union> (dom h - dom h')) h h'"
      by (intro shrink_mono[OF shrink_trans[OF s1 ih(1)]]) (auto simp: dom1)
    have e: "erased {k} h h'"
      by (rule erased_trans[OF erased_same_dom[OF dom1] s1 _ ih(2) ih(1)]) blast
    have "\<forall>n. h' c = Some n \<longrightarrow> k \<notin> parents n"
    proof (intro allI impI)
      fix n assume "h' c = Some n"
      from shrink_node[OF ih(1) this] show "k \<notin> parents n"
        by (auto simp: h1_def node_shrink_def)
    qed
    with ih(3) have l: "\<forall>c'\<in>set (c # cs). \<forall>n. h' c' = Some n \<longrightarrow> k \<notin> parents n"
      by auto
    have p: "\<forall>r nr. h r = Some nr \<longrightarrow> h' r = None \<longrightarrow> parents nr \<noteq> {}"
    proof (intro allI impI)
      fix r nr assume a: "h r = Some nr" "h' r = None"
      show "parents nr \<noteq> {}"
      proof (cases "r = c")
        case True
        have "h1 c = Some (nc\<lparr>parents := parents nc - {k}\<rparr>)" by (simp add: h1_def)
        with ih(4) a(2) True have "parents (nc\<lparr>parents := parents nc - {k}\<rparr>) \<noteq> {}"
          by blast
        with True a hc show ?thesis by auto
      next
        case False
        then have "h1 r = Some nr" using a(1) by (simp add: h1_def)
        with ih(4) a(2) show ?thesis by blast
      qed
    qed
    from s e l p show ?thesis by blast
  qed
qed

lemma remove_helper_spec:
  assumes vok: "virus_ok g0"
  shows "remove_helper n b g0 cg k = Some (Inr (cg', b')) \<Longrightarrow> finite_ok cg \<Longrightarrow>
     cg k \<noteq> None \<and> cg' k = None \<and> shrink (dom cg - dom cg') cg cg' \<and> erased {} cg cg'
     \<and> (\<forall>r nr. cg r = Some nr \<longrightarrow> cg' r = None \<longrightarrow> r \<noteq> k \<longrightarrow> parents nr \<noteq> {})"
proof (induction n arbitrary: b cg k cg' b')
  case 0
  then show ?case by simp
next
  case (Suc n)
  let ?rec = "\<lambda>b' g c. remove_helper n b' g0 g c"
  from Suc.prems(1) obtain nd b1 ccopy b2 nd' b3 cg1 b4 cg2 b5 where
    st: "at_b b cg k = Inr (nd, b1)" "copy_b b1 (children nd) = Inr (ccopy, b2)"
        "at_b b2 cg k = Inr (nd', b3)"
        "detach_parents b3 g0 k (sorted_list_of_set (parents nd')) cg = Inr (cg1, b4)"
        "children_loop ?rec b4 g0 k (sorted_list_of_set ccopy) cg1 = Some (Inr (cg2, b5))"
        "bindE (tick b5) (\<lambda>b6. Inr (cg2(k := None), b6)) = Inr (cg', b')"
    by (auto simp: bindE_eq_Inr split: sum.splits option.splits)
  have k: "cg k = Some nd" using st(1) by (rule at_b_Inr)
  have cc: "ccopy = children nd" using st(2) by (rule copy_b_Inr)
  have nd': "nd' = nd" using at_b_Inr[OF st(3)] k by simp
  have fin: "finite (children nd)" "finite (parents nd)"
    using Suc.prems(2) k by (auto simp: finite_ok_def)
  have cg': "cg' = cg2(k := None)" using st(6) by (auto simp: bindE_eq_Inr)
  from detach_parents_Inr[OF st(4) vok] fin nd' have
    cg1: "cg1 = (\<lambda>q. if q \<in> parents nd
                     then map_option (\<lambda>n. n\<lparr>children := children n - {k}\<rparr>) (cg q)
                     else cg q)"
    by simp
  have s1: "shrink {k} cg cg1" and dom1: "dom cg1 = dom cg"
    using detach_parents_shrink[OF st(4) vok] by blast+
  have fin1: "finite_ok cg1" using Suc.prems(2) s1 by (rule finite_ok_shrink)
  have "shrink ({k} \<union> (dom cg1 - dom cg2)) cg1 cg2 \<and> erased {k} cg1 cg2
       \<and> (\<forall>c\<in>set (sorted_list_of_set ccopy). \<forall>n. cg2 c = Some n \<longrightarrow> k \<notin> parents n)
       \<and> (\<forall>r nr. cg1 r = Some nr \<longrightarrow> cg2 r = None \<longrightarrow> parents nr \<noteq> {})"
    using Suc.IH vok st(5) fin1 by (rule children_loop_spec)
  with cc fin have
    l: "shrink ({k} \<union> (dom cg1 - dom cg2)) cg1 cg2" "erased {k} cg1 cg2"
       "\<forall>c\<in>children nd. \<forall>n. cg2 c = Some n \<longrightarrow> k \<notin> parents n"
       "\<forall>r nr. cg1 r = Some nr \<longrightarrow> cg2 r = None \<longrightarrow> parents nr \<noteq> {}"
    by simp_all
  have s3: "shrink {k} cg2 cg'" unfolding cg' by (rule shrink_erase)
  have d2: "dom cg2 \<subseteq> dom cg1" using l(1) by (rule shrink_dom_subset)
  have s: "shrink (dom cg - dom cg') cg cg'"
    by (intro shrink_mono[OF shrink_trans[OF shrink_trans[OF s1 l(1)] s3]])
       (use k dom1 d2 in \<open>auto simp: cg'\<close>)
  have e: "erased {} cg cg'"
    unfolding erased_def
  proof (intro allI impI)
    fix r q nr nq
    assume a: "cg r = Some nr" "cg' r = None" "cg' q = Some nq" "q \<notin> {}"
    from a(3) have qk: "q \<noteq> k" and q2: "cg2 q = Some nq"
      by (auto simp: cg' split: if_splits)
    from shrink_node[OF l(1) q2] obtain nq1 where
      q1: "cg1 q = Some nq1" "children nq \<subseteq> children nq1"
      by (auto simp: node_shrink_def)
    show "(q \<in> parents nr \<longrightarrow> r \<notin> children nq) \<and> (q \<in> children nr \<longrightarrow> r \<notin> parents nq)"
    proof (cases "r = k")
      case True
      with a(1) k have nr: "nr = nd" by simp
      have "q \<in> parents nd \<longrightarrow> k \<notin> children nq1"
        using q1(1) by (auto simp: cg1)
      with q1(2) l(3) q2 nr True show ?thesis by blast
    next
      case False
      with a(2) have r2: "cg2 r = None" by (simp add: cg')
      have "\<exists>nr1. cg1 r = Some nr1 \<and> parents nr1 = parents nr
          \<and> children nr - {k} \<subseteq> children nr1"
        using a(1) by (cases "r \<in> parents nd") (simp_all add: cg1)
      then obtain nr1 where r1: "cg1 r = Some nr1" "parents nr1 = parents nr"
          "children nr - {k} \<subseteq> children nr1"
        by blast
      from l(2) r1(1) r2 q2 qk
      have "(q \<in> parents nr1 \<longrightarrow> r \<notin> children nq) \<and> (q \<in> children nr1 \<longrightarrow> r \<notin> parents nq)"
        unfolding erased_def by blast
      with r1 qk show ?thesis by blast
    qed
  qed
  have p: "\<forall>r nr. cg r = Some nr \<longrightarrow> cg' r = None \<longrightarrow> r \<noteq> k \<longrightarrow> parents nr \<noteq> {}"
  proof (intro allI impI)
    fix r nr assume a: "cg r = Some nr" "cg' r = None" "r \<noteq> k"
    then have r2: "cg2 r = None" by (simp add: cg')
    have "\<exists>nr1. cg1 r = Some nr1 \<and> parents nr1 = parents nr"
      using a(1) by (cases "r \<in> parents nd") (simp_all add: cg1)
    then obtain nr1 where r1: "cg1 r = Some nr1" "parents nr1 = parents nr"
      by blast
    with l(4) r2 show "parents nr \<noteq> {}" by metis
  qed
  have "cg' k = None" by (simp add: cg')
  with k s e p show ?case by blast
qed

section \<open>What the mutating operations return\<close>

lemma create_try_Inr:
  assumes "create_try b g1 p inserted = Inr g2"
  shows "\<exists>np. g1 p = Some np \<and> g2 = g1(p \<mapsto> np\<lparr>children := insert (virus inserted) (children np)\<rparr>)"
proof -
  from assms obtain np b1 cp b2 cp' b3 where
    st: "find_b b g1 p = Inr (np, b1)" "copy_b b1 (children np) = Inr (cp, b2)"
        "set_insert_b b2 (virus inserted) cp = Inr (cp', b3)"
        "g2 = g1(p \<mapsto> np\<lparr>children := cp'\<rparr>)"
    unfolding create_try_def by (auto simp: bindE_eq_Inr)
  have "g1 p = Some np" using st(1) by (rule find_b_Inr)
  moreover have "cp = children np" using st(2) by (rule copy_b_Inr)
  moreover have "cp' = insert (virus inserted) cp" using st(3) by (rule set_insert_b_Inr)
  ultimately show ?thesis using st(4) by simp
qed

lemma erase_inserted: "g k = None \<Longrightarrow> (g(k \<mapsto> n))(k := None) = g"
  by (auto intro!: ext)

lemma create_Inl:
  assumes "create b k p s = (Inl e, s')"
  shows "s' = s"
proof (cases "exists_b b (graph_m s) k")
  case (Inl e1)
  with assms show ?thesis by (simp add: create_def)
next
  case (Inr x)
  then obtain ex b1 where ex: "exists_b b (graph_m s) k = Inr (ex, b1)" by (cases x) simp
  have exv: "ex = (graph_m s k \<noteq> None)" using ex by (rule exists_b_Inr)
  show ?thesis
  proof (cases ex)
    case True
    with assms ex show ?thesis by (simp add: create_def)
  next
    case False
    then have absent: "graph_m s k = None" using exv by simp
    show ?thesis
    proof (cases "exists_b b1 (graph_m s) p")
      case (Inl e2)
      with assms ex False show ?thesis by (simp add: create_def)
    next
      case (Inr y)
      then obtain exp b2 where exp: "exists_b b1 (graph_m s) p = Inr (exp, b2)"
        by (cases y) simp
      show ?thesis
      proof (cases exp)
        case False
        with assms ex exp \<open>\<not> ex\<close> show ?thesis by (simp add: create_def)
      next
        case True
        note exp_true = True
        show ?thesis
        proof (cases "bindE (find_b b2 (graph_m s) p) (\<lambda>(np, b3). set_insert_b b3 (virus np) {})")
          case (Inl e3)
          with assms ex exp \<open>\<not> ex\<close> exp_true show ?thesis by (simp add: create_def)
        next
          case (Inr z)
          then obtain ps b4 where ps: "bindE (find_b b2 (graph_m s) p)
              (\<lambda>(np, b3). set_insert_b b3 (virus np) {}) = Inr (ps, b4)"
            by (cases z) simp
          let ?n = "\<lparr>children = {}, parents = ps, virus = k\<rparr>"
          show ?thesis
          proof (cases "map_insert_b b4 (graph_m s) k ?n")
            case (Inl e4)
            with assms ex exp \<open>\<not> ex\<close> exp_true ps show ?thesis by (simp add: create_def)
          next
            case (Inr w)
            then obtain g1 inserted b5 where
              ins: "map_insert_b b4 (graph_m s) k ?n = Inr (g1, inserted, b5)"
              by (cases w) auto
            from map_insert_b_Inr[OF ins] absent have g1: "g1 = (graph_m s)(k \<mapsto> ?n)"
              by auto
            have undo: "g1(k := None) = graph_m s"
              unfolding g1 using absent by (rule erase_inserted)
            from assms ex exp \<open>\<not> ex\<close> exp_true ps ins undo show ?thesis
              by (auto simp: create_def split: sum.splits)
          qed
        qed
      qed
    qed
  qed
qed

lemma create_Inr:
  assumes "create b k p s = (Inr u, s')"
  shows "\<exists>np. graph_m s k = None \<and> graph_m s p = Some np
     \<and> s' = s\<lparr>graph_m := (graph_m s)
           (k \<mapsto> \<lparr>children = {}, parents = {virus np}, virus = k\<rparr>,
            p \<mapsto> np\<lparr>children := insert k (children np)\<rparr>)\<rparr>"
proof -
  from assms obtain ex b1 exp b2 ps b4 g1 inserted b5 g2 where
    st: "exists_b b (graph_m s) k = Inr (ex, b1)" "\<not> ex"
        "exists_b b1 (graph_m s) p = Inr (exp, b2)" "exp"
        "bindE (find_b b2 (graph_m s) p) (\<lambda>(np, b3). set_insert_b b3 (virus np) {})
           = Inr (ps, b4)"
        "map_insert_b b4 (graph_m s) k \<lparr>children = {}, parents = ps, virus = k\<rparr>
           = Inr (g1, inserted, b5)"
        "create_try b5 g1 p inserted = Inr g2" "s' = s\<lparr>graph_m := g2\<rparr>"
    unfolding create_def by (auto split: sum.splits if_splits)
  have absent: "graph_m s k = None" using exists_b_Inr[OF st(1)] st(2) by simp
  from st(5) obtain np b3 where np: "find_b b2 (graph_m s) p = Inr (np, b3)"
      "set_insert_b b3 (virus np) {} = Inr (ps, b4)"
    by (auto simp: bindE_eq_Inr)
  have p: "graph_m s p = Some np" using np(1) by (rule find_b_Inr)
  have ps: "ps = {virus np}" using set_insert_b_Inr[OF np(2)] by simp
  from map_insert_b_Inr[OF st(6)] absent have
    g1: "g1 = (graph_m s)(k \<mapsto> \<lparr>children = {}, parents = ps, virus = k\<rparr>)"
      "inserted = \<lparr>children = {}, parents = ps, virus = k\<rparr>"
    by auto
  have pk: "p \<noteq> k" using p absent by auto
  from create_try_Inr[OF st(7)] pk p have
    "g2 = g1(p \<mapsto> np\<lparr>children := insert k (children np)\<rparr>)"
    by (auto simp: g1)
  with absent p ps g1 st(8) show ?thesis by simp
qed

lemma validate_parents_Inr:
  "validate_parents b g ps = Inr b' \<Longrightarrow> \<forall>p\<in>set ps. g p \<noteq> None"
proof (induction ps arbitrary: b)
  case Nil
  then show ?case by simp
next
  case (Cons p ps)
  from Cons.prems obtain ex b1 where
    st: "exists_b b g p = Inr (ex, b1)" "ex" "validate_parents b1 g ps = Inr b'"
    by (auto simp: bindE_eq_Inr split: if_splits)
  from exists_b_Inr[OF st(1)] st(2) Cons.IH[OF st(3)] show ?case by simp
qed

lemma validate_parents_Inl:
  "validate_parents b g ps = Inl e \<Longrightarrow> e = UserException \<or> e = VirusNotFound"
proof (induction ps arbitrary: b)
  case Nil
  then show ?case by simp
next
  case (Cons p ps)
  show ?case
  proof (cases "exists_b b g p")
    case (Inl e')
    with Cons.prems have "e = e'" by simp
    moreover from Inl have "e' = UserException"
      by (auto simp: exists_b_def bindE_def split: sum.splits dest: tick_Inl)
    ultimately show ?thesis by simp
  next
    case (Inr x)
    then show ?thesis using Cons by (cases x) (auto split: if_splits)
  qed
qed

lemma validate_parents_None:
  "validate_parents None g ps = (if \<forall>p\<in>set ps. g p \<noteq> None then Inr None else Inl VirusNotFound)"
  by (induction ps) auto

lemma create_virus_set_Inr:
  "create_virus_set b g ps acc = Inr (res, b') \<Longrightarrow>
     res = acc \<union> {v. \<exists>p\<in>set ps. \<exists>np. g p = Some np \<and> v = virus np}"
proof (induction ps arbitrary: b acc)
  case Nil
  then show ?case by simp
next
  case (Cons p ps)
  from Cons.prems obtain np b1 acc' b2 where
    st: "find_b b g p = Inr (np, b1)" "set_insert_b b1 (virus np) acc = Inr (acc', b2)"
        "create_virus_set b2 g ps acc' = Inr (res, b')"
    by (auto simp: bindE_eq_Inr)
  have "g p = Some np" using st(1) by (rule find_b_Inr)
  moreover have "acc' = insert (virus np) acc" using st(2) by (rule set_insert_b_Inr)
  ultimately show ?case using Cons.IH[OF st(3)] by auto
qed

lemma collect_swaps_Inr:
  "collect_swaps b g1 inserted ps todo = Inr todo' \<Longrightarrow>
     todo' = todo @ map (\<lambda>p. (p, case g1 p of None \<Rightarrow> {}
                               | Some np \<Rightarrow> insert (virus inserted) (children np))) ps"
proof (induction ps arbitrary: b todo)
  case Nil
  then show ?case by simp
next
  case (Cons p ps)
  from Cons.prems obtain np b1 cp b2 cp' b3 pushed b4 where
    st: "find_b b g1 p = Inr (np, b1)" "copy_b b1 (children np) = Inr (cp, b2)"
        "set_insert_b b2 (virus inserted) cp = Inr (cp', b3)"
        "copy_b b3 cp' = Inr (pushed, b4)"
        "collect_swaps b4 g1 inserted ps (todo @ [(p, pushed)]) = Inr todo'"
    by (auto simp: bindE_eq_Inr)
  have "g1 p = Some np" using st(1) by (rule find_b_Inr)
  moreover have "pushed = insert (virus inserted) (children np)"
    using copy_b_Inr[OF st(2)] set_insert_b_Inr[OF st(3)] copy_b_Inr[OF st(4)] by simp
  ultimately show ?case using Cons.IH[OF st(5)] by simp
qed

lemma commit_swaps_map:
  "commit_swaps (map (\<lambda>p. (p, f p)) xs) g =
     (\<lambda>q. if q \<in> set xs then map_option (\<lambda>n. n\<lparr>children := f q\<rparr>) (g q) else g q)"
proof (induction xs arbitrary: g)
  case Nil
  then show ?case by simp
next
  case (Cons p xs)
  show ?case
    by (cases "g p") (auto simp: Cons.IH intro!: ext)
qed

lemma create_multi_Inl:
  assumes "create_multi b k ps s = (Inl e, s')"
  shows "s' = s"
  using assms unfolding create_multi_def
  by (auto split: sum.splits if_splits dest!: exists_b_Inr map_insert_b_Inr
        simp: erase_inserted fun_upd_idem)

lemma create_multi_Inr:
  assumes "create_multi b k ps s = (Inr u, s')"
  shows "graph_m s k = None \<and> (\<forall>p\<in>set ps. graph_m s p \<noteq> None)
     \<and> (ps = [] \<longrightarrow> s' = s)
     \<and> (ps \<noteq> [] \<longrightarrow> s' = s\<lparr>graph_m := (\<lambda>q.
           if q = k then Some \<lparr>children = {},
                  parents = {v. \<exists>p\<in>set ps. \<exists>np. graph_m s p = Some np \<and> v = virus np},
                  virus = k\<rparr>
           else if q \<in> set ps
             then map_option (\<lambda>n. n\<lparr>children := insert k (children n)\<rparr>) (graph_m s q)
             else graph_m s q)\<rparr>)"
proof -
  from assms obtain ex b1 b2 where
    st: "exists_b b (graph_m s) k = Inr (ex, b1)" "\<not> ex"
        "validate_parents b1 (graph_m s) ps = Inr b2"
    unfolding create_multi_def by (auto split: sum.splits if_splits)
  have absent: "graph_m s k = None" using exists_b_Inr[OF st(1)] st(2) by simp
  have present: "\<forall>p\<in>set ps. graph_m s p \<noteq> None"
    using st(3) by (rule validate_parents_Inr)
  have empty: "ps = [] \<longrightarrow> s' = s"
    using assms st unfolding create_multi_def by auto
  have full: "s' = s\<lparr>graph_m := (\<lambda>q.
           if q = k then Some \<lparr>children = {},
                  parents = {v. \<exists>p\<in>set ps. \<exists>np. graph_m s p = Some np \<and> v = virus np},
                  virus = k\<rparr>
           else if q \<in> set ps
             then map_option (\<lambda>n. n\<lparr>children := insert k (children n)\<rparr>) (graph_m s q)
             else graph_m s q)\<rparr>" if ne: "ps \<noteq> []"
  proof -
    from assms st ne obtain P b3 g1 inserted b4 todo where
      st2: "create_virus_set b2 (graph_m s) ps {} = Inr (P, b3)"
           "map_insert_b b3 (graph_m s) k \<lparr>children = {}, parents = P, virus = k\<rparr>
              = Inr (g1, inserted, b4)"
           "collect_swaps b4 g1 inserted ps [] = Inr todo"
           "s' = s\<lparr>graph_m := commit_swaps (rev todo) g1\<rparr>"
      unfolding create_multi_def by (auto split: sum.splits if_splits)
    have P: "P = {v. \<exists>p\<in>set ps. \<exists>np. graph_m s p = Some np \<and> v = virus np}"
      using create_virus_set_Inr[OF st2(1)] by simp
    from map_insert_b_Inr[OF st2(2)] absent have
      g1: "g1 = (graph_m s)(k \<mapsto> \<lparr>children = {}, parents = P, virus = k\<rparr>)"
        and ins: "inserted = \<lparr>children = {}, parents = P, virus = k\<rparr>"
      by auto
    let ?f = "\<lambda>p. case g1 p of None \<Rightarrow> {} | Some np \<Rightarrow> insert (virus inserted) (children np)"
    have "todo = map (\<lambda>p. (p, ?f p)) ps"
      using collect_swaps_Inr[OF st2(3)] by simp
    then have "rev todo = map (\<lambda>p. (p, ?f p)) (rev ps)"
      by (simp add: rev_map)
    then have "commit_swaps (rev todo) g1 =
        (\<lambda>q. if q \<in> set ps then map_option (\<lambda>n. n\<lparr>children := ?f q\<rparr>) (g1 q) else g1 q)"
      by (simp add: commit_swaps_map)
    also have "\<dots> = (\<lambda>q.
           if q = k then Some \<lparr>children = {}, parents = P, virus = k\<rparr>
           else if q \<in> set ps
             then map_option (\<lambda>n. n\<lparr>children := insert k (children n)\<rparr>) (graph_m s q)
             else graph_m s q)"
    proof -
      have "k \<notin> set ps" using absent present by auto
      then show ?thesis
        using present by (auto simp: g1 ins intro!: ext split: option.splits)
    qed
    finally have committed: "commit_swaps (rev todo) g1 = (\<lambda>q.
           if q = k then Some \<lparr>children = {}, parents = P, virus = k\<rparr>
           else if q \<in> set ps
             then map_option (\<lambda>n. n\<lparr>children := insert k (children n)\<rparr>) (graph_m s q)
             else graph_m s q)" .
    show ?thesis by (simp only: st2(4) committed P)
  qed
  from absent present empty full show ?thesis by blast
qed

lemma connect_Inl:
  assumes "connect b c p s = (Inl e, s')"
  shows "s' = s"
  using assms unfolding connect_def by (auto split: sum.splits)

lemma connect_graph_Inr:
  assumes "connect_graph b g c p = Inr g'"
  shows "\<exists>nc np. g c = Some nc \<and> g p = Some np
     \<and> (p \<in> parents nc \<longrightarrow> g' = g)
     \<and> (p \<notin> parents nc \<longrightarrow> g' =
           (if c = p
            then g(c \<mapsto> nc\<lparr>parents := insert (virus nc) (parents nc),
                           children := insert (virus nc) (children nc)\<rparr>)
            else g(c \<mapsto> nc\<lparr>parents := insert (virus np) (parents nc)\<rparr>,
                   p \<mapsto> np\<lparr>children := insert (virus nc) (children np)\<rparr>)))"
proof -
  from assms obtain exc b1 where s1: "exists_b b g c = Inr (exc, b1)" and exc: "exc"
    and r1: "bindE (exists_b b1 g p) (\<lambda>(exp, b2).
       if \<not> exp then Inl VirusNotFound
       else bindE (find_b b2 g c) (\<lambda>(child_node, b3).
            bindE (find_b b3 g p) (\<lambda>(parent_node, b4).
            bindE (set_contains_b b4 p (parents child_node)) (\<lambda>(linked, b5).
       if linked then Inr g
       else bindE (copy_b b5 (parents child_node)) (\<lambda>(child_parents_cp, b6).
            bindE (copy_b b6 (children parent_node)) (\<lambda>(parent_children_cp, b7).
            bindE (set_insert_b b7 (virus parent_node) child_parents_cp)
              (\<lambda>(child_parents_cp', b8).
            bindE (set_insert_b b8 (virus child_node) parent_children_cp)
              (\<lambda>(parent_children_cp', b9).
              let g1 = g(c \<mapsto> child_node\<lparr>parents := child_parents_cp'\<rparr>) in
              Inr (case g1 p of
                     None \<Rightarrow> g1
                   | Some n \<Rightarrow> g1(p \<mapsto> n\<lparr>children := parent_children_cp'\<rparr>))))))))))
       = Inr g'"
    unfolding connect_graph_def
    by (cases "exists_b b g c") (auto split: if_splits)
  from r1 obtain exp b2 where s2: "exists_b b1 g p = Inr (exp, b2)" and exp: "exp"
    and r2: "bindE (find_b b2 g c) (\<lambda>(child_node, b3).
            bindE (find_b b3 g p) (\<lambda>(parent_node, b4).
            bindE (set_contains_b b4 p (parents child_node)) (\<lambda>(linked, b5).
       if linked then Inr g
       else bindE (copy_b b5 (parents child_node)) (\<lambda>(child_parents_cp, b6).
            bindE (copy_b b6 (children parent_node)) (\<lambda>(parent_children_cp, b7).
            bindE (set_insert_b b7 (virus parent_node) child_parents_cp)
              (\<lambda>(child_parents_cp', b8).
            bindE (set_insert_b b8 (virus child_node) parent_children_cp)
              (\<lambda>(parent_children_cp', b9).
              let g1 = g(c \<mapsto> child_node\<lparr>parents := child_parents_cp'\<rparr>) in
              Inr (case g1 p of
                     None \<Rightarrow> g1
                   | Some n \<Rightarrow> g1(p \<mapsto> n\<lparr>children := parent_children_cp'\<rparr>)))))))))
       = Inr g'"
    by (cases "exists_b b1 g p") (auto split: if_splits)
  from r2 obtain nc b3 where s3: "find_b b2 g c = Inr (nc, b3)"
    and r3: "bindE (find_b b3 g p) (\<lambda>(parent_node, b4).
            bindE (set_contains_b b4 p (parents nc)) (\<lambda>(linked, b5).
       if linked then Inr g
       else bindE (copy_b b5 (parents nc)) (\<lambda>(child_parents_cp, b6).
            bindE (copy_b b6 (children parent_node)) (\<lambda>(parent_children_cp, b7).
            bindE (set_insert_b b7 (virus parent_node) child_parents_cp)
              (\<lambda>(child_parents_cp', b8).
            bindE (set_insert_b b8 (virus nc) parent_children_cp)
              (\<lambda>(parent_children_cp', b9).
              let g1 = g(c \<mapsto> nc\<lparr>parents := child_parents_cp'\<rparr>) in
              Inr (case g1 p of
                     None \<Rightarrow> g1
                   | Some n \<Rightarrow> g1(p \<mapsto> n\<lparr>children := parent_children_cp'\<rparr>))))))))
       = Inr g'"
    by (cases "find_b b2 g c") auto
  from r3 obtain np b4 where s4: "find_b b3 g p = Inr (np, b4)"
    and r4: "bindE (set_contains_b b4 p (parents nc)) (\<lambda>(linked, b5).
       if linked then Inr g
       else bindE (copy_b b5 (parents nc)) (\<lambda>(child_parents_cp, b6).
            bindE (copy_b b6 (children np)) (\<lambda>(parent_children_cp, b7).
            bindE (set_insert_b b7 (virus np) child_parents_cp)
              (\<lambda>(child_parents_cp', b8).
            bindE (set_insert_b b8 (virus nc) parent_children_cp)
              (\<lambda>(parent_children_cp', b9).
              let g1 = g(c \<mapsto> nc\<lparr>parents := child_parents_cp'\<rparr>) in
              Inr (case g1 p of
                     None \<Rightarrow> g1
                   | Some n \<Rightarrow> g1(p \<mapsto> n\<lparr>children := parent_children_cp'\<rparr>)))))))
       = Inr g'"
    by (cases "find_b b3 g p") auto
  have c: "g c = Some nc" using s3 by (rule find_b_Inr)
  have p: "g p = Some np" using s4 by (rule find_b_Inr)
  from r4 obtain linked b5 where s5: "set_contains_b b4 p (parents nc) = Inr (linked, b5)"
    and r5: "(if linked then Inr g
       else bindE (copy_b b5 (parents nc)) (\<lambda>(child_parents_cp, b6).
            bindE (copy_b b6 (children np)) (\<lambda>(parent_children_cp, b7).
            bindE (set_insert_b b7 (virus np) child_parents_cp)
              (\<lambda>(child_parents_cp', b8).
            bindE (set_insert_b b8 (virus nc) parent_children_cp)
              (\<lambda>(parent_children_cp', b9).
              let g1 = g(c \<mapsto> nc\<lparr>parents := child_parents_cp'\<rparr>) in
              Inr (case g1 p of
                     None \<Rightarrow> g1
                   | Some n \<Rightarrow> g1(p \<mapsto> n\<lparr>children := parent_children_cp'\<rparr>)))))))
       = Inr g'"
    by (cases "set_contains_b b4 p (parents nc)") auto
  have linked: "linked = (p \<in> parents nc)" using s5 by (rule set_contains_b_Inr)
  show ?thesis
  proof (cases "p \<in> parents nc")
    case True
    with r5 linked have "g' = g" by simp
    with c p True show ?thesis by blast
  next
    case False
    with r5 linked have r6: "bindE (copy_b b5 (parents nc)) (\<lambda>(child_parents_cp, b6).
            bindE (copy_b b6 (children np)) (\<lambda>(parent_children_cp, b7).
            bindE (set_insert_b b7 (virus np) child_parents_cp)
              (\<lambda>(child_parents_cp', b8).
            bindE (set_insert_b b8 (virus nc) parent_children_cp)
              (\<lambda>(parent_children_cp', b9).
              let g1 = g(c \<mapsto> nc\<lparr>parents := child_parents_cp'\<rparr>) in
              Inr (case g1 p of
                     None \<Rightarrow> g1
                   | Some n \<Rightarrow> g1(p \<mapsto> n\<lparr>children := parent_children_cp'\<rparr>))))))
       = Inr g'"
      by simp
    have "g' = (if c = p
            then g(c \<mapsto> nc\<lparr>parents := insert (virus nc) (parents nc),
                           children := insert (virus nc) (children nc)\<rparr>)
            else g(c \<mapsto> nc\<lparr>parents := insert (virus np) (parents nc)\<rparr>,
                   p \<mapsto> np\<lparr>children := insert (virus nc) (children np)\<rparr>))"
    proof (cases "c = p")
      case True
      with c p have "np = nc" by simp
      with True r6 show ?thesis
        by (auto simp: bindE_eq_Inr Let_def dest!: copy_b_Inr set_insert_b_Inr)
    next
      case False
      with r6 p show ?thesis
        by (auto simp: bindE_eq_Inr Let_def dest!: copy_b_Inr set_insert_b_Inr)
    qed
    with c p False show ?thesis by blast
  qed
qed

lemma connect_Inr:
  assumes "connect b c p s = (Inr u, s')"
  shows "\<exists>nc np. graph_m s c = Some nc \<and> graph_m s p = Some np
     \<and> (p \<in> parents nc \<longrightarrow> s' = s)
     \<and> (p \<notin> parents nc \<longrightarrow> s' = s\<lparr>graph_m :=
           (if c = p
            then (graph_m s)(c \<mapsto> nc\<lparr>parents := insert (virus nc) (parents nc),
                                      children := insert (virus nc) (children nc)\<rparr>)
            else (graph_m s)(c \<mapsto> nc\<lparr>parents := insert (virus np) (parents nc)\<rparr>,
                             p \<mapsto> np\<lparr>children := insert (virus nc) (children np)\<rparr>))\<rparr>)"
proof -
  from assms obtain g' where g': "connect_graph b (graph_m s) c p = Inr g'"
    and s': "s' = s\<lparr>graph_m := g'\<rparr>"
    unfolding connect_def by (auto split: sum.splits)
  from connect_graph_Inr[OF g'] obtain nc np where
    n: "graph_m s c = Some nc" "graph_m s p = Some np"
       "p \<in> parents nc \<longrightarrow> g' = graph_m s"
       "p \<notin> parents nc \<longrightarrow> g' =
           (if c = p
            then (graph_m s)(c \<mapsto> nc\<lparr>parents := insert (virus nc) (parents nc),
                                      children := insert (virus nc) (children nc)\<rparr>)
            else (graph_m s)(c \<mapsto> nc\<lparr>parents := insert (virus np) (parents nc)\<rparr>,
                             p \<mapsto> np\<lparr>children := insert (virus nc) (children np)\<rparr>))"
    by blast
  have "p \<in> parents nc \<longrightarrow> s' = s" using n(3) s' by simp
  moreover have "p \<notin> parents nc \<longrightarrow> s' = s\<lparr>graph_m :=
           (if c = p
            then (graph_m s)(c \<mapsto> nc\<lparr>parents := insert (virus nc) (parents nc),
                                      children := insert (virus nc) (children nc)\<rparr>)
            else (graph_m s)(c \<mapsto> nc\<lparr>parents := insert (virus np) (parents nc)\<rparr>,
                             p \<mapsto> np\<lparr>children := insert (virus nc) (children np)\<rparr>))\<rparr>"
    using n(4) s' by simp
  ultimately show ?thesis using n(1,2) by blast
qed

section \<open>The invariants are kept\<close>

lemma symmetricI:
  assumes "\<And>a na c. g a = Some na \<Longrightarrow> c \<in> children na \<Longrightarrow> \<exists>nc. g c = Some nc \<and> a \<in> parents nc"
    and "\<And>a nc c. g c = Some nc \<Longrightarrow> a \<in> parents nc \<Longrightarrow> \<exists>na. g a = Some na \<and> c \<in> children na"
  shows "symmetric g"
  unfolding symmetric_def using assms by blast

lemma symmetric_child:
  "symmetric g \<Longrightarrow> g a = Some na \<Longrightarrow> c \<in> children na \<Longrightarrow> \<exists>nc. g c = Some nc \<and> a \<in> parents nc"
  unfolding symmetric_def by blast

lemma symmetric_parent:
  "symmetric g \<Longrightarrow> g c = Some nc \<Longrightarrow> a \<in> parents nc \<Longrightarrow> \<exists>na. g a = Some na \<and> c \<in> children na"
  unfolding symmetric_def by blast

lemma symmetric_add_node:
  assumes sym: "symmetric g" and absent: "g k = None" and present: "\<forall>p\<in>S. g p \<noteq> None"
  shows "symmetric (\<lambda>q.
           if q = k then Some \<lparr>children = {}, parents = S, virus = k\<rparr>
           else if q \<in> S then map_option (\<lambda>n. n\<lparr>children := insert k (children n)\<rparr>) (g q)
           else g q)"
    (is "symmetric ?g'")
proof (rule symmetricI)
  have kS: "k \<notin> S" using absent present by auto
  have par: "\<exists>n'. ?g' q = Some n' \<and> parents n' = parents n" if "g q = Some n" for q n
    using that absent by (cases "q \<in> S") auto
  have chi: "\<exists>n'. ?g' q = Some n' \<and> children n \<subseteq> children n'" if "g q = Some n" for q n
    using that absent by (cases "q \<in> S") auto
  {
    fix a na c
    assume a: "?g' a = Some na" and c: "c \<in> children na"
    from a c have ak: "a \<noteq> k" by (auto split: if_splits)
    from a ak obtain n0 where n0: "g a = Some n0"
      and cs: "children na = (if a \<in> S then insert k (children n0) else children n0)"
      by (auto split: if_splits)
    show "\<exists>nc. ?g' c = Some nc \<and> a \<in> parents nc"
    proof (cases "c \<in> children n0")
      case True
      from symmetric_child[OF sym n0 True] obtain nc where "g c = Some nc" "a \<in> parents nc"
        by blast
      with par[of c nc] show ?thesis by auto
    next
      case False
      with c cs have "c = k" "a \<in> S" by (auto split: if_splits)
      then show ?thesis by simp
    qed
  next
    fix a nc c
    assume c: "?g' c = Some nc" and a: "a \<in> parents nc"
    show "\<exists>na. ?g' a = Some na \<and> c \<in> children na"
    proof (cases "c = k")
      case True
      with c a have "a \<in> S" by auto
      with present kS show ?thesis using True by auto
    next
      case False
      with c obtain n0 where n0: "g c = Some n0" "parents nc = parents n0"
        by (auto split: if_splits)
      from symmetric_parent[OF sym n0(1)] a n0(2) obtain na where
        "g a = Some na" "c \<in> children na"
        by auto
      with chi[of a na] show ?thesis by auto
    qed
  }
qed

lemma symmetric_add_edge:
  assumes sym: "symmetric g" and c: "g c = Some nc" and p: "g p = Some np" and ne: "c \<noteq> p"
  shows "symmetric (g(c \<mapsto> nc\<lparr>parents := insert p (parents nc)\<rparr>,
                      p \<mapsto> np\<lparr>children := insert c (children np)\<rparr>))"
    (is "symmetric ?g'")
proof (rule symmetricI)
  have par: "\<exists>n'. ?g' q = Some n' \<and> parents n \<subseteq> parents n'" if "g q = Some n" for q n
    using that c p by auto
  have chi: "\<exists>n'. ?g' q = Some n' \<and> children n \<subseteq> children n'" if "g q = Some n" for q n
    using that c p by auto
  {
    fix a na x
    assume a: "?g' a = Some na" and x: "x \<in> children na"
    from a obtain n0 where n0: "g a = Some n0"
      and cs: "children na = (if a = p then insert c (children n0) else children n0)"
      using c p ne by (auto split: if_splits)
    show "\<exists>nx. ?g' x = Some nx \<and> a \<in> parents nx"
    proof (cases "x \<in> children n0")
      case True
      from symmetric_child[OF sym n0 True] obtain nx where "g x = Some nx" "a \<in> parents nx"
        by blast
      with par[of x nx] show ?thesis by blast
    next
      case False
      with x cs have "x = c" "a = p" by (auto split: if_splits)
      then show ?thesis using ne by simp
    qed
  next
    fix a nx x
    assume x: "?g' x = Some nx" and a: "a \<in> parents nx"
    from x obtain n0 where n0: "g x = Some n0"
      and ps: "parents nx = (if x = c then insert p (parents n0) else parents n0)"
      using c p ne by (auto split: if_splits)
    show "\<exists>na. ?g' a = Some na \<and> x \<in> children na"
    proof (cases "a \<in> parents n0")
      case True
      from symmetric_parent[OF sym n0 True] obtain na where "g a = Some na" "x \<in> children na"
        by blast
      with chi[of a na] show ?thesis by blast
    next
      case False
      with a ps have "x = c" "a = p" by (auto split: if_splits)
      then show ?thesis by simp
    qed
  }
qed

lemma symmetric_add_loop:
  assumes sym: "symmetric g" and c: "g c = Some nc"
  shows "symmetric (g(c \<mapsto> nc\<lparr>parents := insert c (parents nc),
                               children := insert c (children nc)\<rparr>))"
    (is "symmetric ?g'")
proof (rule symmetricI)
  have par: "\<exists>n'. ?g' q = Some n' \<and> parents n \<subseteq> parents n'" if "g q = Some n" for q n
    using that c by auto
  have chi: "\<exists>n'. ?g' q = Some n' \<and> children n \<subseteq> children n'" if "g q = Some n" for q n
    using that c by auto
  {
    fix a na x
    assume a: "?g' a = Some na" and x: "x \<in> children na"
    from a obtain n0 where n0: "g a = Some n0"
      and cs: "children na = (if a = c then insert c (children n0) else children n0)"
      using c by (auto split: if_splits)
    show "\<exists>nx. ?g' x = Some nx \<and> a \<in> parents nx"
    proof (cases "x \<in> children n0")
      case True
      from symmetric_child[OF sym n0 True] obtain nx where "g x = Some nx" "a \<in> parents nx"
        by blast
      with par[of x nx] show ?thesis by blast
    next
      case False
      with x cs have "x = c" "a = c" by (auto split: if_splits)
      then show ?thesis by simp
    qed
  next
    fix a nx x
    assume x: "?g' x = Some nx" and a: "a \<in> parents nx"
    from x obtain n0 where n0: "g x = Some n0"
      and ps: "parents nx = (if x = c then insert c (parents n0) else parents n0)"
      using c by (auto split: if_splits)
    show "\<exists>na. ?g' a = Some na \<and> x \<in> children na"
    proof (cases "a \<in> parents n0")
      case True
      from symmetric_parent[OF sym n0 True] obtain na where "g a = Some na" "x \<in> children na"
        by blast
      with chi[of a na] show ?thesis by blast
    next
      case False
      with a ps have "x = c" "a = c" by (auto split: if_splits)
      then show ?thesis by simp
    qed
  }
qed

lemma symmetric_shrink_erased:
  assumes sym: "symmetric g" and s: "shrink (dom g - dom g') g g'" and e: "erased {} g g'"
  shows "symmetric g'"
proof (rule symmetricI)
  fix a na c
  assume a: "g' a = Some na" and c: "c \<in> children na"
  from shrink_node[OF s a] obtain n0 where n0: "g a = Some n0" "children na \<subseteq> children n0"
    by (auto simp: node_shrink_def)
  with c have "c \<in> children n0" by blast
  from symmetric_child[OF sym n0(1) this] obtain nc0 where
    nc0: "g c = Some nc0" "a \<in> parents nc0"
    by blast
  show "\<exists>nc. g' c = Some nc \<and> a \<in> parents nc"
  proof (cases "g' c")
    case None
    with e nc0 a c show ?thesis unfolding erased_def by blast
  next
    case (Some nc)
    from shrink_node[OF s Some] nc0(1) have "parents nc0 - (dom g - dom g') \<subseteq> parents nc"
      by (auto simp: node_shrink_def)
    moreover have "a \<notin> dom g - dom g'" using a by auto
    ultimately show ?thesis using Some nc0(2) by blast
  qed
next
  fix a nc c
  assume c: "g' c = Some nc" and a: "a \<in> parents nc"
  from shrink_node[OF s c] obtain n0 where n0: "g c = Some n0" "parents nc \<subseteq> parents n0"
    by (auto simp: node_shrink_def)
  with a have "a \<in> parents n0" by blast
  from symmetric_parent[OF sym n0(1) this] obtain na0 where
    na0: "g a = Some na0" "c \<in> children na0"
    by blast
  show "\<exists>na. g' a = Some na \<and> c \<in> children na"
  proof (cases "g' a")
    case None
    with e na0 c a show ?thesis unfolding erased_def by blast
  next
    case (Some na)
    from shrink_node[OF s Some] na0(1) have "children na0 - (dom g - dom g') \<subseteq> children na"
      by (auto simp: node_shrink_def)
    moreover have "c \<notin> dom g - dom g'" using c by auto
    ultimately show ?thesis using Some na0(2) by blast
  qed
qed

lemma virus_ok_shrink:
  assumes "virus_ok g" and "shrink X g g'"
  shows "virus_ok g'"
  unfolding virus_ok_def
proof (intro allI impI)
  fix k n' assume "g' k = Some n'"
  from shrink_node[OF assms(2) this] obtain n where "g k = Some n" "virus n' = virus n"
    by (auto simp: node_shrink_def)
  with assms(1) show "virus n' = k" by (simp add: virus_ok_def)
qed

lemma remove_op_Inl:
  assumes "remove_op n b k s = Some (Inl e, s')"
  shows "s' = s"
  using assms unfolding remove_op_def
  by (auto split: sum.splits if_splits option.splits)

lemma remove_op_Inr:
  assumes "remove_op n b k s = Some (Inr u, s')"
  shows "graph_m s k \<noteq> None \<and> k \<noteq> stem_id s
     \<and> (\<exists>b1 b2. remove_helper n b1 (graph_m s) (graph_m s) k = Some (Inr (graph_m s', b2)))
     \<and> s' = s\<lparr>graph_m := graph_m s'\<rparr>"
proof -
  from assms obtain ex b1 b2 arg b4 tmp b5 where
    st: "exists_b b (graph_m s) k = Inr (ex, b1)" "ex" "k \<noteq> stem_id s"
        "bindE (copy_b b2 (graph_m s)) (\<lambda>(copied_graph, b3). copy_b b3 copied_graph)
           = Inr (arg, b4)"
        "remove_helper n b4 (graph_m s) arg k = Some (Inr (tmp, b5))"
        "s' = s\<lparr>graph_m := tmp\<rparr>"
    unfolding remove_op_def
    by (auto split: sum.splits if_splits option.splits)
  have "graph_m s k \<noteq> None" using exists_b_Inr[OF st(1)] st(2) by simp
  moreover have "arg = graph_m s"
    using st(4) by (auto simp: bindE_eq_Inr dest!: copy_b_Inr)
  ultimately show ?thesis using st(3,5,6) by auto
qed

lemma remove_op_spec:
  assumes run: "remove_op n b k s = Some (Inr u, s')"
    and vok: "virus_ok (graph_m s)" and fin: "finite_ok (graph_m s)"
  shows "graph_m s k \<noteq> None" and "k \<noteq> stem_id s" and "graph_m s' k = None"
    and "shrink (dom (graph_m s) - dom (graph_m s')) (graph_m s) (graph_m s')"
    and "erased {} (graph_m s) (graph_m s')"
    and "\<forall>r nr. graph_m s r = Some nr \<longrightarrow> graph_m s' r = None \<longrightarrow> r \<noteq> k \<longrightarrow> parents nr \<noteq> {}"
    and "stem_id s' = stem_id s" and "virus_set s' = virus_set s"
proof -
  from remove_op_Inr[OF run] obtain b1 b2 where
    r: "graph_m s k \<noteq> None" "k \<noteq> stem_id s"
       "remove_helper n b1 (graph_m s) (graph_m s) k = Some (Inr (graph_m s', b2))"
       "s' = s\<lparr>graph_m := graph_m s'\<rparr>"
    by blast
  note spec = remove_helper_spec[OF vok r(3) fin]
  show "graph_m s k \<noteq> None" "k \<noteq> stem_id s" by (rule r)+
  show "graph_m s' k = None" using spec by blast
  show "shrink (dom (graph_m s) - dom (graph_m s')) (graph_m s) (graph_m s')"
    using spec by blast
  show "erased {} (graph_m s) (graph_m s')" using spec by blast
  show "\<forall>r nr. graph_m s r = Some nr \<longrightarrow> graph_m s' r = None \<longrightarrow> r \<noteq> k \<longrightarrow> parents nr \<noteq> {}"
    using spec by blast
  show "stem_id s' = stem_id s" by (subst r(4)) simp
  show "virus_set s' = virus_set s" by (subst r(4)) simp
qed

lemma lookup_state:
  assumes "lookup Virus get_id b s k = (q, s')"
  shows "graph_m s' = graph_m s" and "stem_id s' = stem_id s"
    and "(\<forall>x. get_id (Virus x) = x) \<Longrightarrow> cache_ok Virus (virus_set s)
           \<Longrightarrow> cache_ok Virus (virus_set s')"
proof -
  have "s' = s \<or> (\<exists>v. s' = s\<lparr>virus_set := (case virus_set s (get_id (Virus v)) of
                               None \<Rightarrow> (virus_set s)(get_id (Virus v) \<mapsto> Virus v)
                             | Some w \<Rightarrow> virus_set s)\<rparr>)"
    using assms unfolding lookup_def vs_insert_b_def
    by (auto simp: bindE_eq_Inr split: sum.splits option.splits dest!: copy_b_Inr)
  then show "graph_m s' = graph_m s" "stem_id s' = stem_id s"
    "(\<forall>x. get_id (Virus x) = x) \<Longrightarrow> cache_ok Virus (virus_set s)
           \<Longrightarrow> cache_ok Virus (virus_set s')"
    by (auto simp: cache_ok_def split: option.splits if_splits)
qed

lemma remove_helper_gone:
  "remove_helper n b g0 cg k = Some (Inr (cg', b')) \<Longrightarrow> cg' k = None"
  by (cases n) (auto simp: bindE_eq_Inr split: sum.splits option.splits)

section \<open>Rejected creations\<close>

text \<open>
  C5: with a parameter type that does not throw, both overloads of \<^verbatim>\<open>create\<close> throw
  \<^verbatim>\<open>VirusAlreadyCreated\<close> when the identifier is in the graph, whatever the parents
  are (the check comes first), and throw \<^verbatim>\<open>VirusNotFound\<close> when the identifier is
  new and a named parent is missing; in both cases the state returned is the state
  before the call, and in the second case \<^verbatim>\<open>exists\<close> of the candidate is still
  false.
\<close>

theorem create_rejections:
  "(graph_m s k \<noteq> None \<longrightarrow>
        create None k p s = (Inl VirusAlreadyCreated, s)
      \<and> create_multi None k ps s = (Inl VirusAlreadyCreated, s))
   \<and> (graph_m s k = None \<and> graph_m s p = None \<longrightarrow>
        create None k p s = (Inl VirusNotFound, s) \<and> exists None s k = Inr False)
   \<and> (graph_m s k = None \<and> (\<exists>q\<in>set ps. graph_m s q = None) \<longrightarrow>
        create_multi None k ps s = (Inl VirusNotFound, s) \<and> exists None s k = Inr False)"
proof -
  have a1: "graph_m s k \<noteq> None \<longrightarrow>
        create None k p s = (Inl VirusAlreadyCreated, s)
      \<and> create_multi None k ps s = (Inl VirusAlreadyCreated, s)"
    by (simp add: create_def create_multi_def)
  have a2: "graph_m s k = None \<and> graph_m s p = None \<longrightarrow>
        create None k p s = (Inl VirusNotFound, s) \<and> exists None s k = Inr False"
    by (simp add: create_def exists_def)
  have a3: "graph_m s k = None \<and> (\<exists>q\<in>set ps. graph_m s q = None) \<longrightarrow>
        create_multi None k ps s = (Inl VirusNotFound, s) \<and> exists None s k = Inr False"
    by (auto simp: create_multi_def exists_def validate_parents_None)
  show ?thesis by (rule conjI[OF a1 conjI[OF a2 a3]])
qed

theorem create_rejections_witness:
  "create None 0 7 (construct 0 :: (nat, nat) genealogy) = (Inl VirusAlreadyCreated, construct 0)
   \<and> create_multi None 0 [7, 8] (construct 0 :: (nat, nat) genealogy)
       = (Inl VirusAlreadyCreated, construct 0)
   \<and> create None 1 7 (construct 0 :: (nat, nat) genealogy) = (Inl VirusNotFound, construct 0)
   \<and> create_multi None 1 [0, 7] (construct 0 :: (nat, nat) genealogy)
       = (Inl VirusNotFound, construct 0)
   \<and> exists None (construct 0 :: (nat, nat) genealogy) 1 = Inr False"
proof -
  let ?s0 = "construct 0 :: (nat, nat) genealogy"
  have g0: "graph_m ?s0 = Map.empty(0 \<mapsto> \<lparr>children = {}, parents = {}, virus = 0\<rparr>)"
    by (simp add: construct_def)
  have h: "graph_m ?s0 0 \<noteq> None" "graph_m ?s0 1 = None \<and> graph_m ?s0 7 = None"
    "graph_m ?s0 1 = None \<and> (\<exists>q\<in>set [0, 7]. graph_m ?s0 q = None)"
    by (simp_all add: g0)
  from create_rejections[of ?s0 0 7 "[7, 8]"] h(1)
  have w1: "create None 0 7 ?s0 = (Inl VirusAlreadyCreated, ?s0)
      \<and> create_multi None 0 [7, 8] ?s0 = (Inl VirusAlreadyCreated, ?s0)"
    by blast
  from create_rejections[of ?s0 1 7 "[0, 7]"] h(2,3)
  have w2: "create None 1 7 ?s0 = (Inl VirusNotFound, ?s0)"
    and w3: "create_multi None 1 [0, 7] ?s0 = (Inl VirusNotFound, ?s0)"
    and w4: "exists None ?s0 1 = Inr False"
    by blast+
  from w1 w2 w3 w4 show ?thesis by blast
qed

section \<open>An empty vector of parents\<close>

text \<open>
  C7, as the code has it: \<^verbatim>\<open>create(id, {})\<close> never changes the state, whatever the
  parameter type does; with a parameter type that does not throw it returns without
  creating anything when the identifier is new, and throws
  \<^verbatim>\<open>VirusAlreadyCreated\<close> when the identifier is in the graph, since that check
  comes before the test for the empty vector.
\<close>

theorem create_multi_empty:
  "snd (create_multi b k [] s) = s
   \<and> (graph_m s k = None \<longrightarrow> create_multi None k [] s = (Inr (), s))
   \<and> (graph_m s k \<noteq> None \<longrightarrow> create_multi None k [] s = (Inl VirusAlreadyCreated, s))"
proof -
  have a1: "snd (create_multi b k [] s) = s"
    by (auto simp: create_multi_def split: sum.splits)
  have a2: "graph_m s k = None \<longrightarrow> create_multi None k [] s = (Inr (), s)"
    by (simp add: create_multi_def)
  have a3: "graph_m s k \<noteq> None \<longrightarrow> create_multi None k [] s = (Inl VirusAlreadyCreated, s)"
    by (simp add: create_multi_def)
  show ?thesis by (rule conjI[OF a1 conjI[OF a2 a3]])
qed

theorem create_multi_empty_witness:
  "create_multi None 1 [] (construct 0 :: (nat, nat) genealogy) = (Inr (), construct 0)
   \<and> create_multi None 0 [] (construct 0 :: (nat, nat) genealogy)
       = (Inl VirusAlreadyCreated, construct 0)
   \<and> snd (create_multi (Some 0) 1 [] (construct 0 :: (nat, nat) genealogy)) = construct 0"
proof -
  let ?s0 = "construct 0 :: (nat, nat) genealogy"
  have h: "graph_m ?s0 1 = None" "graph_m ?s0 0 \<noteq> None"
    by (simp_all add: construct_def)
  from create_multi_empty[of "Some 0" 1 ?s0] h(1)
  have "create_multi None 1 [] ?s0 = (Inr (), ?s0)"
    and "snd (create_multi (Some 0) 1 [] ?s0) = ?s0"
    by blast+
  moreover from create_multi_empty[of None 0 ?s0] h(2)
  have "create_multi None 0 [] ?s0 = (Inl VirusAlreadyCreated, ?s0)"
    by blast
  ultimately show ?thesis by blast
qed

text \<open>
  The claim as it is written (for every identifier the call returns silently) fails for
  the stem of a fresh genealogy: the call throws.
\<close>

theorem create_multi_empty_counterexample:
  "create_multi None 0 [] (construct 0 :: (nat, nat) genealogy) \<noteq> (Inr (), construct 0)"
  by (simp add: create_multi_def construct_def)

section \<open>Every operation keeps the graph well formed\<close>

lemma inv_construct: "wf_genealogy (construct stem)"
  by (auto simp: wf_genealogy_def construct_def virus_ok_def finite_ok_def symmetric_def
        nonstem_parents_def)

lemma stem_ok_construct: "stem_ok (construct stem)"
  by (simp add: stem_ok_def construct_def)

lemma inv_add_node:
  assumes i: "wf_genealogy s" and absent: "graph_m s k = None"
    and present: "\<forall>p\<in>S. graph_m s p \<noteq> None" and fin: "finite S" and ne: "S \<noteq> {}"
  shows "wf_genealogy (s\<lparr>graph_m := (\<lambda>q.
           if q = k then Some \<lparr>children = {}, parents = S, virus = k\<rparr>
           else if q \<in> S
             then map_option (\<lambda>n. n\<lparr>children := insert k (children n)\<rparr>) (graph_m s q)
             else graph_m s q)\<rparr>)"
    (is "wf_genealogy (s\<lparr>graph_m := ?g'\<rparr>)")
proof -
  from i have vok: "virus_ok (graph_m s)" and fok: "finite_ok (graph_m s)"
    and sym: "symmetric (graph_m s)" and nsp: "nonstem_parents s"
    by (simp_all add: wf_genealogy_def)
  have node: "n' = \<lparr>children = {}, parents = S, virus = k\<rparr> \<and> q = k
      \<or> (\<exists>n. graph_m s q = Some n \<and> q \<noteq> k \<and> virus n' = virus n \<and> parents n' = parents n
            \<and> (children n' = children n \<or> children n' = insert k (children n)))"
    if "?g' q = Some n'" for q n'
    using that by (cases "q = k"; cases "q \<in> S") auto
  have "virus_ok ?g'"
    unfolding virus_ok_def using node vok unfolding virus_ok_def by fastforce
  moreover have "finite_ok ?g'"
    unfolding finite_ok_def
  proof (intro allI impI)
    fix q n' assume "?g' q = Some n'"
    from node[OF this] fin fok show "finite (children n') \<and> finite (parents n')"
      unfolding finite_ok_def by (elim disjE exE conjE) simp_all
  qed
  moreover have "symmetric ?g'"
    using sym absent present by (rule symmetric_add_node)
  moreover have "nonstem_parents (s\<lparr>graph_m := ?g'\<rparr>)"
    unfolding nonstem_parents_def
  proof (intro allI impI)
    fix q n' assume a: "graph_m (s\<lparr>graph_m := ?g'\<rparr>) q = Some n'"
      and b: "q \<noteq> stem_id (s\<lparr>graph_m := ?g'\<rparr>)"
    from a have "?g' q = Some n'" by simp
    from node[OF this] b ne nsp show "parents n' \<noteq> {}"
      unfolding nonstem_parents_def by (elim disjE exE conjE) simp_all
  qed
  ultimately show ?thesis by (simp add: wf_genealogy_def)
qed

lemma stem_ok_add_node:
  assumes "stem_ok s" and "graph_m s k = None"
  shows "stem_ok (s\<lparr>graph_m := (\<lambda>q.
           if q = k then Some \<lparr>children = {}, parents = S, virus = k\<rparr>
           else if q \<in> S
             then map_option (\<lambda>n. n\<lparr>children := insert k (children n)\<rparr>) (graph_m s q)
             else graph_m s q)\<rparr>)"
  using assms unfolding stem_ok_def by auto

lemma create_as_add_node:
  assumes "virus_ok (graph_m s)" and "create b k p s = (Inr u, s')"
  shows "graph_m s k = None \<and> graph_m s p \<noteq> None
     \<and> s' = s\<lparr>graph_m := (\<lambda>q.
           if q = k then Some \<lparr>children = {}, parents = {p}, virus = k\<rparr>
           else if q \<in> {p}
             then map_option (\<lambda>n. n\<lparr>children := insert k (children n)\<rparr>) (graph_m s q)
             else graph_m s q)\<rparr>"
proof -
  from create_Inr[OF assms(2)] obtain np where
    n: "graph_m s k = None" "graph_m s p = Some np"
       "s' = s\<lparr>graph_m := (graph_m s)
           (k \<mapsto> \<lparr>children = {}, parents = {virus np}, virus = k\<rparr>,
            p \<mapsto> np\<lparr>children := insert k (children np)\<rparr>)\<rparr>"
    by blast
  have v: "virus np = p" using assms(1) n(2) by (simp add: virus_ok_def)
  have pk: "p \<noteq> k" using n(1,2) by auto
  have "(graph_m s)
           (k \<mapsto> \<lparr>children = {}, parents = {virus np}, virus = k\<rparr>,
            p \<mapsto> np\<lparr>children := insert k (children np)\<rparr>)
      = (\<lambda>q.
           if q = k then Some \<lparr>children = {}, parents = {p}, virus = k\<rparr>
           else if q \<in> {p}
             then map_option (\<lambda>n. n\<lparr>children := insert k (children n)\<rparr>) (graph_m s q)
             else graph_m s q)"
    using v pk n(2) by (auto intro!: ext)
  with n show ?thesis by simp
qed

lemma create_multi_as_add_node:
  assumes vok: "virus_ok (graph_m s)" and run: "create_multi b k ps s = (Inr u, s')"
    and ne: "ps \<noteq> []"
  shows "graph_m s k = None \<and> (\<forall>p\<in>set ps. graph_m s p \<noteq> None)
     \<and> s' = s\<lparr>graph_m := (\<lambda>q.
           if q = k then Some \<lparr>children = {}, parents = set ps, virus = k\<rparr>
           else if q \<in> set ps
             then map_option (\<lambda>n. n\<lparr>children := insert k (children n)\<rparr>) (graph_m s q)
             else graph_m s q)\<rparr>"
proof -
  from create_multi_Inr[OF run] ne have
    n: "graph_m s k = None" "\<forall>p\<in>set ps. graph_m s p \<noteq> None"
       "s' = s\<lparr>graph_m := (\<lambda>q.
           if q = k then Some \<lparr>children = {},
                  parents = {v. \<exists>p\<in>set ps. \<exists>np. graph_m s p = Some np \<and> v = virus np},
                  virus = k\<rparr>
           else if q \<in> set ps
             then map_option (\<lambda>n. n\<lparr>children := insert k (children n)\<rparr>) (graph_m s q)
             else graph_m s q)\<rparr>"
    by blast+
  have P: "{v. \<exists>p\<in>set ps. \<exists>np. graph_m s p = Some np \<and> v = virus np} = set ps"
  proof (intro set_eqI iffI)
    fix v assume "v \<in> {v. \<exists>p\<in>set ps. \<exists>np. graph_m s p = Some np \<and> v = virus np}"
    then obtain p np where "p \<in> set ps" "graph_m s p = Some np" "v = virus np" by blast
    with vok show "v \<in> set ps" by (simp add: virus_ok_def)
  next
    fix v assume v: "v \<in> set ps"
    with n(2) obtain np where np: "graph_m s v = Some np" by blast
    with vok have "virus np = v" by (simp add: virus_ok_def)
    with v np show "v \<in> {v. \<exists>p\<in>set ps. \<exists>np. graph_m s p = Some np \<and> v = virus np}"
      by blast
  qed
  from n(3) have "s' = s\<lparr>graph_m := (\<lambda>q.
           if q = k then Some \<lparr>children = {}, parents = set ps, virus = k\<rparr>
           else if q \<in> set ps
             then map_option (\<lambda>n. n\<lparr>children := insert k (children n)\<rparr>) (graph_m s q)
             else graph_m s q)\<rparr>"
    by (simp only: P)
  with n(1,2) show ?thesis by blast
qed

lemma inv_create:
  assumes i: "wf_genealogy s" and run: "create b k p s = (r, s')"
  shows "wf_genealogy s'"
proof (cases r)
  case (Inl e)
  with run have "s' = s" by (auto dest: create_Inl)
  with i show ?thesis by simp
next
  case (Inr u)
  from i have vok: "virus_ok (graph_m s)" by (simp add: wf_genealogy_def)
  from create_as_add_node[OF vok run[unfolded Inr]] have
    n: "graph_m s k = None" "graph_m s p \<noteq> None"
       "s' = s\<lparr>graph_m := (\<lambda>q.
           if q = k then Some \<lparr>children = {}, parents = {p}, virus = k\<rparr>
           else if q \<in> {p}
             then map_option (\<lambda>n. n\<lparr>children := insert k (children n)\<rparr>) (graph_m s q)
             else graph_m s q)\<rparr>"
    by blast+
  have "wf_genealogy (s\<lparr>graph_m := (\<lambda>q.
           if q = k then Some \<lparr>children = {}, parents = {p}, virus = k\<rparr>
           else if q \<in> {p}
             then map_option (\<lambda>n. n\<lparr>children := insert k (children n)\<rparr>) (graph_m s q)
             else graph_m s q)\<rparr>)"
    using i n(1) by (rule inv_add_node) (use n(2) in simp_all)
  then show ?thesis by (simp only: n(3))
qed

lemma inv_create_multi:
  assumes i: "wf_genealogy s" and run: "create_multi b k ps s = (r, s')"
  shows "wf_genealogy s'"
proof (cases r)
  case (Inl e)
  with run have "s' = s" by (auto dest: create_multi_Inl)
  with i show ?thesis by simp
next
  case (Inr u)
  show ?thesis
  proof (cases "ps = []")
    case True
    with create_multi_Inr[OF run[unfolded Inr]] have "s' = s" by blast
    with i show ?thesis by simp
  next
    case False
    from i have vok: "virus_ok (graph_m s)" by (simp add: wf_genealogy_def)
    from create_multi_as_add_node[OF vok run[unfolded Inr] False] have
      n: "graph_m s k = None" "\<forall>p\<in>set ps. graph_m s p \<noteq> None"
         "s' = s\<lparr>graph_m := (\<lambda>q.
           if q = k then Some \<lparr>children = {}, parents = set ps, virus = k\<rparr>
           else if q \<in> set ps
             then map_option (\<lambda>n. n\<lparr>children := insert k (children n)\<rparr>) (graph_m s q)
             else graph_m s q)\<rparr>"
      by blast+
    have "wf_genealogy (s\<lparr>graph_m := (\<lambda>q.
           if q = k then Some \<lparr>children = {}, parents = set ps, virus = k\<rparr>
           else if q \<in> set ps
             then map_option (\<lambda>n. n\<lparr>children := insert k (children n)\<rparr>) (graph_m s q)
             else graph_m s q)\<rparr>)"
      using i n(1,2) by (rule inv_add_node) (use False in simp_all)
    then show ?thesis by (simp only: n(3))
  qed
qed

lemma stem_ok_create:
  assumes "stem_ok s" and "virus_ok (graph_m s)" and "create b k p s = (r, s')"
  shows "stem_ok s'"
proof (cases r)
  case (Inl e)
  with assms show ?thesis by (auto dest: create_Inl)
next
  case (Inr u)
  from create_as_add_node[OF assms(2) assms(3)[unfolded Inr]] have
    n: "graph_m s k = None"
       "s' = s\<lparr>graph_m := (\<lambda>q.
           if q = k then Some \<lparr>children = {}, parents = {p}, virus = k\<rparr>
           else if q \<in> {p}
             then map_option (\<lambda>n. n\<lparr>children := insert k (children n)\<rparr>) (graph_m s q)
             else graph_m s q)\<rparr>"
    by blast+
  show ?thesis unfolding n(2) using assms(1) n(1) by (rule stem_ok_add_node)
qed

lemma stem_ok_create_multi:
  assumes "stem_ok s" and "virus_ok (graph_m s)" and "create_multi b k ps s = (r, s')"
  shows "stem_ok s'"
proof (cases r)
  case (Inl e)
  with assms show ?thesis by (auto dest: create_multi_Inl)
next
  case (Inr u)
  show ?thesis
  proof (cases "ps = []")
    case True
    with create_multi_Inr[OF assms(3)[unfolded Inr]] have "s' = s" by blast
    with assms(1) show ?thesis by simp
  next
    case False
    from create_multi_as_add_node[OF assms(2) assms(3)[unfolded Inr] False] have
      n: "graph_m s k = None"
         "s' = s\<lparr>graph_m := (\<lambda>q.
           if q = k then Some \<lparr>children = {}, parents = set ps, virus = k\<rparr>
           else if q \<in> set ps
             then map_option (\<lambda>n. n\<lparr>children := insert k (children n)\<rparr>) (graph_m s q)
             else graph_m s q)\<rparr>"
      by blast+
    show ?thesis unfolding n(2) using assms(1) n(1) by (rule stem_ok_add_node)
  qed
qed

lemma connect_cases:
  assumes vok: "virus_ok (graph_m s)" and run: "connect b c p s = (r, s')"
  shows "s' = s
     \<or> (\<exists>nc. c = p \<and> graph_m s c = Some nc
           \<and> s' = s\<lparr>graph_m := (graph_m s)(c \<mapsto> nc\<lparr>parents := insert c (parents nc),
                                                   children := insert c (children nc)\<rparr>)\<rparr>)
     \<or> (\<exists>nc np. c \<noteq> p \<and> graph_m s c = Some nc \<and> graph_m s p = Some np
           \<and> s' = s\<lparr>graph_m := (graph_m s)(c \<mapsto> nc\<lparr>parents := insert p (parents nc)\<rparr>,
                                    p \<mapsto> np\<lparr>children := insert c (children np)\<rparr>)\<rparr>)"
proof (cases r)
  case (Inl e)
  with run show ?thesis by (auto dest: connect_Inl)
next
  case (Inr u)
  from connect_Inr[OF run[unfolded Inr]] obtain nc np where
    n: "graph_m s c = Some nc" "graph_m s p = Some np"
       "p \<in> parents nc \<longrightarrow> s' = s"
       "p \<notin> parents nc \<longrightarrow> s' = s\<lparr>graph_m :=
           (if c = p
            then (graph_m s)(c \<mapsto> nc\<lparr>parents := insert (virus nc) (parents nc),
                                      children := insert (virus nc) (children nc)\<rparr>)
            else (graph_m s)(c \<mapsto> nc\<lparr>parents := insert (virus np) (parents nc)\<rparr>,
                             p \<mapsto> np\<lparr>children := insert (virus nc) (children np)\<rparr>))\<rparr>"
    by blast
  have v: "virus nc = c" "virus np = p" using vok n(1,2) by (simp_all add: virus_ok_def)
  show ?thesis
  proof (cases "p \<in> parents nc")
    case True
    with n(3) show ?thesis by simp
  next
    case False
    note new = n(4)[rule_format, OF False]
    show ?thesis
    proof (cases "c = p")
      case True
      with new v have "s' = s\<lparr>graph_m := (graph_m s)
          (c \<mapsto> nc\<lparr>parents := insert c (parents nc), children := insert c (children nc)\<rparr>)\<rparr>"
        by simp
      with True n(1) show ?thesis by blast
    next
      case False
      with new v have "s' = s\<lparr>graph_m := (graph_m s)
          (c \<mapsto> nc\<lparr>parents := insert p (parents nc)\<rparr>,
           p \<mapsto> np\<lparr>children := insert c (children np)\<rparr>)\<rparr>"
        by simp
      with False n(1,2) show ?thesis by blast
    qed
  qed
qed

lemma inv_add_loop:
  assumes i: "wf_genealogy s" and c: "graph_m s c = Some nc"
  shows "wf_genealogy (s\<lparr>graph_m := (graph_m s)(c \<mapsto> nc\<lparr>parents := insert c (parents nc),
                                                 children := insert c (children nc)\<rparr>)\<rparr>)"
proof -
  from i have vok: "virus_ok (graph_m s)" and fok: "finite_ok (graph_m s)"
    and sym: "symmetric (graph_m s)" and nsp: "nonstem_parents s"
    by (simp_all add: wf_genealogy_def)
  let ?g' = "(graph_m s)(c \<mapsto> nc\<lparr>parents := insert c (parents nc),
                                   children := insert c (children nc)\<rparr>)"
  have "virus_ok ?g'" using vok c by (auto simp: virus_ok_def)
  moreover have "finite_ok ?g'" using fok c by (auto simp: finite_ok_def)
  moreover have "symmetric ?g'" using sym c by (rule symmetric_add_loop)
  moreover have "nonstem_parents (s\<lparr>graph_m := ?g'\<rparr>)"
    using nsp c by (auto simp: nonstem_parents_def)
  ultimately show ?thesis by (simp add: wf_genealogy_def)
qed

lemma inv_add_edge:
  assumes i: "wf_genealogy s" and c: "graph_m s c = Some nc" and p: "graph_m s p = Some np"
    and ne: "c \<noteq> p"
  shows "wf_genealogy (s\<lparr>graph_m := (graph_m s)(c \<mapsto> nc\<lparr>parents := insert p (parents nc)\<rparr>,
                                    p \<mapsto> np\<lparr>children := insert c (children np)\<rparr>)\<rparr>)"
proof -
  from i have vok: "virus_ok (graph_m s)" and fok: "finite_ok (graph_m s)"
    and sym: "symmetric (graph_m s)" and nsp: "nonstem_parents s"
    by (simp_all add: wf_genealogy_def)
  let ?g' = "(graph_m s)(c \<mapsto> nc\<lparr>parents := insert p (parents nc)\<rparr>,
                         p \<mapsto> np\<lparr>children := insert c (children np)\<rparr>)"
  have "virus_ok ?g'" using vok c p by (auto simp: virus_ok_def)
  moreover have "finite_ok ?g'" using fok c p by (auto simp: finite_ok_def)
  moreover have "symmetric ?g'" using sym c p ne by (rule symmetric_add_edge)
  moreover have "nonstem_parents (s\<lparr>graph_m := ?g'\<rparr>)"
    using nsp c p by (auto simp: nonstem_parents_def)
  ultimately show ?thesis by (simp add: wf_genealogy_def)
qed

lemma inv_connect:
  assumes i: "wf_genealogy s" and run: "connect b c p s = (r, s')"
  shows "wf_genealogy s'"
proof -
  from i have vok: "virus_ok (graph_m s)" by (simp add: wf_genealogy_def)
  from connect_cases[OF vok run] show ?thesis
  proof (elim disjE exE conjE)
    assume "s' = s"
    with i show ?thesis by simp
  next
    fix nc
    assume "graph_m s c = Some nc"
      and s': "s' = s\<lparr>graph_m := (graph_m s)(c \<mapsto> nc\<lparr>parents := insert c (parents nc),
                                                   children := insert c (children nc)\<rparr>)\<rparr>"
    with i show ?thesis unfolding s' by (intro inv_add_loop)
  next
    fix nc np
    assume "c \<noteq> p" "graph_m s c = Some nc" "graph_m s p = Some np"
      and s': "s' = s\<lparr>graph_m := (graph_m s)(c \<mapsto> nc\<lparr>parents := insert p (parents nc)\<rparr>,
                                    p \<mapsto> np\<lparr>children := insert c (children np)\<rparr>)\<rparr>"
    with i show ?thesis unfolding s' by (intro inv_add_edge)
  qed
qed

lemma stem_ok_connect:
  assumes st: "stem_ok s" and vok: "virus_ok (graph_m s)" and ne: "c \<noteq> stem_id s"
    and run: "connect b c p s = (r, s')"
  shows "stem_ok s'"
  using connect_cases[OF vok run] st ne
  by (elim disjE exE conjE) (auto simp: stem_ok_def)

lemma inv_remove:
  assumes i: "wf_genealogy s" and run: "remove_op n b k s = Some (r, s')"
  shows "wf_genealogy s'"
proof (cases r)
  case (Inl e)
  with run have "s' = s" by (auto dest: remove_op_Inl)
  with i show ?thesis by simp
next
  case (Inr u)
  from i have vok: "virus_ok (graph_m s)" and fok: "finite_ok (graph_m s)"
    and sym: "symmetric (graph_m s)" and nsp: "nonstem_parents s"
    by (simp_all add: wf_genealogy_def)
  note sp = remove_op_spec[OF run[unfolded Inr] vok fok]
  have "virus_ok (graph_m s')" using vok sp(4) by (rule virus_ok_shrink)
  moreover have "finite_ok (graph_m s')" using fok sp(4) by (rule finite_ok_shrink)
  moreover have "symmetric (graph_m s')" using sym sp(4) sp(5) by (rule symmetric_shrink_erased)
  moreover have "nonstem_parents s'"
    unfolding nonstem_parents_def
  proof (intro allI impI)
    fix q n' assume a: "graph_m s' q = Some n'" and b: "q \<noteq> stem_id s'"
    from shrink_node[OF sp(4) a] obtain n0 where
      n0: "graph_m s q = Some n0" "parents n0 \<noteq> {} \<longrightarrow> parents n' \<noteq> {}"
      by (auto simp: node_shrink_def)
    from nsp n0(1) b sp(7) have "parents n0 \<noteq> {}" by (simp add: nonstem_parents_def)
    with n0(2) show "parents n' \<noteq> {}" by simp
  qed
  ultimately show ?thesis by (simp add: wf_genealogy_def)
qed

lemma stem_ok_remove:
  assumes st: "stem_ok s" and i: "wf_genealogy s" and run: "remove_op n b k s = Some (r, s')"
  shows "stem_ok s'"
proof (cases r)
  case (Inl e)
  with run have "s' = s" by (auto dest: remove_op_Inl)
  with st show ?thesis by simp
next
  case (Inr u)
  from i have vok: "virus_ok (graph_m s)" and fok: "finite_ok (graph_m s)"
    by (simp_all add: wf_genealogy_def)
  note sp = remove_op_spec[OF run[unfolded Inr] vok fok]
  from st obtain n0 where n0: "graph_m s (stem_id s) = Some n0" "parents n0 = {}"
    by (auto simp: stem_ok_def)
  have "graph_m s' (stem_id s) \<noteq> None"
  proof
    assume "graph_m s' (stem_id s) = None"
    with sp(6) n0(1) sp(2) have "parents n0 \<noteq> {}" by blast
    with n0(2) show False by simp
  qed
  then obtain n' where n': "graph_m s' (stem_id s) = Some n'" by blast
  from shrink_node[OF sp(4) n'] n0 have "parents n' = {}"
    by (auto simp: node_shrink_def)
  with n' sp(7) show ?thesis by (simp add: stem_ok_def)
qed

lemma reachable_inv: "reachable Virus get_id s \<Longrightarrow> wf_genealogy s"
proof (induction rule: reachable.induct)
  case (r_construct stem)
  show ?case by (rule inv_construct)
next
  case (r_create s b k parent_id r s')
  then show ?case by (blast intro: inv_create)
next
  case (r_create_multi s b k parent_ids r s')
  then show ?case by (blast intro: inv_create_multi)
next
  case (r_connect s b child_id parent_id r s')
  then show ?case by (blast intro: inv_connect)
next
  case (r_remove s n b k r s')
  then show ?case by (blast intro: inv_remove)
next
  case (r_lookup s b k q s')
  from lookup_state(1,2)[OF r_lookup.hyps(2)] r_lookup.IH show ?case
    by (simp add: wf_genealogy_def nonstem_parents_def)
qed

lemma reachable_cache_ok:
  assumes "\<forall>x. get_id (Virus x) = x"
  shows "reachable Virus get_id s \<Longrightarrow> cache_ok Virus (virus_set s)"
proof (induction rule: reachable.induct)
  case (r_construct stem)
  show ?case by (simp add: construct_def cache_ok_def)
next
  case (r_create s b k parent_id r s')
  then show ?case
    by (cases r) (auto dest!: create_Inl create_Inr)
next
  case (r_create_multi s b k parent_ids r s')
  then show ?case
    by (cases r; cases "parent_ids = []") (auto dest!: create_multi_Inl create_multi_Inr)
next
  case (r_connect s b child_id parent_id r s')
  then show ?case
    by (cases r) (auto dest!: connect_Inl connect_Inr)
next
  case (r_remove s n b k r s')
  then show ?case
    by (cases r) (auto dest!: remove_op_Inl remove_op_Inr, metis genealogy.select_convs(2) genealogy.surjective genealogy.update_convs(1))
next
  case (r_lookup s b k q s')
  from lookup_state(3)[OF r_lookup.hyps(2)] assms r_lookup.IH show ?case by blast
qed

lemma guarded_reachable: "reachable_guarded Virus get_id s \<Longrightarrow> reachable Virus get_id s"
  by (induction rule: reachable_guarded.induct) (blast intro: reachable.intros)+

lemma guarded_stem_ok: "reachable_guarded Virus get_id s \<Longrightarrow> stem_ok s"
proof (induction rule: reachable_guarded.induct)
  case (g_construct stem)
  show ?case by (rule stem_ok_construct)
next
  case (g_create s b k parent_id r s')
  from reachable_inv[OF guarded_reachable[OF g_create.hyps(1)]]
  have "virus_ok (graph_m s)" by (simp add: wf_genealogy_def)
  with g_create show ?case by (blast intro: stem_ok_create)
next
  case (g_create_multi s b k parent_ids r s')
  from reachable_inv[OF guarded_reachable[OF g_create_multi.hyps(1)]]
  have "virus_ok (graph_m s)" by (simp add: wf_genealogy_def)
  with g_create_multi show ?case by (blast intro: stem_ok_create_multi)
next
  case (g_connect s child_id b parent_id r s')
  from reachable_inv[OF guarded_reachable[OF g_connect.hyps(1)]]
  have "virus_ok (graph_m s)" by (simp add: wf_genealogy_def)
  with g_connect show ?case by (blast intro: stem_ok_connect)
next
  case (g_remove s n b k r s')
  from reachable_inv[OF guarded_reachable[OF g_remove.hyps(1)]] g_remove
  show ?case by (blast intro: stem_ok_remove)
next
  case (g_lookup s b k q s')
  from lookup_state(1,2)[OF g_lookup.hyps(2)] g_lookup.IH show ?case
    by (simp add: stem_ok_def)
qed

section \<open>The example genealogies, evaluated\<close>

lemma ex_chain_eq:
  "ex_chain = \<lparr>graph_m = Map.empty(0 \<mapsto> \<lparr>children = {1}, parents = {}, virus = 0\<rparr>,
                                     1 \<mapsto> \<lparr>children = {}, parents = {0}, virus = 1\<rparr>),
               virus_set = Map.empty, stem_id = 0\<rparr>"
  by (simp add: ex_chain_def create_def create_try_def construct_def fun_upd_twist)

lemma ex_stem_cycle_eq:
  "ex_stem_cycle = \<lparr>graph_m = Map.empty(0 \<mapsto> \<lparr>children = {1}, parents = {1}, virus = 0\<rparr>,
                                     1 \<mapsto> \<lparr>children = {0}, parents = {0}, virus = 1\<rparr>),
               virus_set = Map.empty, stem_id = 0\<rparr>"
  by (simp add: ex_stem_cycle_def ex_chain_eq connect_def connect_graph_def Let_def fun_upd_twist)

lemma ex_diamond_eq:
  "ex_diamond = \<lparr>graph_m = Map.empty(0 \<mapsto> \<lparr>children = {1}, parents = {}, virus = 0\<rparr>,
                                     1 \<mapsto> \<lparr>children = {2, 3}, parents = {0}, virus = 1\<rparr>,
                                     2 \<mapsto> \<lparr>children = {3}, parents = {1}, virus = 2\<rparr>,
                                     3 \<mapsto> \<lparr>children = {}, parents = {1, 2}, virus = 3\<rparr>),
               virus_set = Map.empty, stem_id = 0\<rparr>"
  by (auto simp: ex_diamond_def ex_chain_eq create_def create_try_def create_multi_def
        intro!: ext)

lemma sorted_list_two: "sorted_list_of_set {2, 3 :: nat} = [2, 3]"
  by (simp add: insort_key.simps)

lemma ex_stem_cycle_remove:
  "remove_op (Suc (Suc 0)) None 1 ex_stem_cycle
     = Some (Inr (), \<lparr>graph_m = Map.empty, virus_set = Map.empty, stem_id = 0\<rparr>)"
  by (auto simp: ex_stem_cycle_eq remove_op_def simp del: One_nat_def intro!: ext)

lemma ex_diamond_remove:
  "remove_op (Suc (Suc 0)) None 1 ex_diamond
     = Some (Inr (), \<lparr>graph_m = Map.empty(0 \<mapsto> \<lparr>children = {}, parents = {}, virus = 0\<rparr>),
                      virus_set = Map.empty, stem_id = 0\<rparr>)"
  by (auto simp: ex_diamond_eq remove_op_def sorted_list_two insert_Diff_if simp del: One_nat_def intro!: ext)

lemma ex_stem_removed_eq:
  "ex_stem_removed = \<lparr>graph_m = Map.empty, virus_set = Map.empty, stem_id = 0\<rparr>"
  by (simp add: ex_stem_removed_def ex_stem_cycle_remove del: One_nat_def)

lemma ex_diamond_removed_eq:
  "ex_diamond_removed
     = \<lparr>graph_m = Map.empty(0 \<mapsto> \<lparr>children = {}, parents = {}, virus = 0\<rparr>),
        virus_set = Map.empty, stem_id = 0\<rparr>"
  by (simp add: ex_diamond_removed_def ex_diamond_remove del: One_nat_def)

lemma guarded_ex_chain: "reachable_guarded id id ex_chain"
  unfolding ex_chain_def
  by (rule g_create[OF g_construct surjective_pairing])

lemma guarded_ex_diamond: "reachable_guarded id id ex_diamond"
  unfolding ex_diamond_def
  by (rule g_create_multi[OF g_create[OF guarded_ex_chain surjective_pairing]
        surjective_pairing])

lemma guarded_ex_diamond_removed: "reachable_guarded id id ex_diamond_removed"
proof -
  have "remove_op (Suc (Suc 0)) None 1 ex_diamond = Some (Inr (), ex_diamond_removed)"
    by (simp add: ex_diamond_remove ex_diamond_removed_eq del: One_nat_def)
  with guarded_ex_diamond show ?thesis by (rule g_remove)
qed

lemma reachable_ex_stem_cycle: "reachable id id ex_stem_cycle"
  unfolding ex_stem_cycle_def
  by (rule r_connect[OF guarded_reachable[OF guarded_ex_chain] surjective_pairing])

lemma reachable_ex_stem_removed: "reachable id id ex_stem_removed"
proof -
  have "remove_op (Suc (Suc 0)) None 1 ex_stem_cycle = Some (Inr (), ex_stem_removed)"
    by (simp add: ex_stem_cycle_remove ex_stem_removed_eq del: One_nat_def)
  with reachable_ex_stem_cycle show ?thesis by (rule r_remove)
qed

section \<open>The structural invariants\<close>

text \<open>
  C2, as the code has it: in every state reached from the constructor by calls of
  the public operations in which \<^verbatim>\<open>connect\<close> is never given the stem as the child,
  the stem is a node of the graph with an empty parent set (so it has never been
  removed), every other node has at least one parent, and \<open>p\<close> lists \<open>c\<close> as a child
  exactly when \<open>c\<close> lists \<open>p\<close> as a parent. The last two hold in every reachable state,
  whatever \<^verbatim>\<open>connect\<close> was given.
\<close>

theorem structural_invariants:
  "(reachable_guarded Virus get_id s \<longrightarrow>
      stem_ok s \<and> nonstem_parents s \<and> symmetric (graph_m s))
   \<and> (reachable Virus get_id s \<longrightarrow> nonstem_parents s \<and> symmetric (graph_m s))"
proof -
  have b: "nonstem_parents s \<and> symmetric (graph_m s)" if "reachable Virus get_id s"
    using reachable_inv[OF that] by (simp add: wf_genealogy_def)
  have a: "stem_ok s \<and> nonstem_parents s \<and> symmetric (graph_m s)"
    if "reachable_guarded Virus get_id s"
    using guarded_stem_ok[OF that] b[OF guarded_reachable[OF that]] by simp
  from a b show ?thesis by blast
qed

theorem structural_invariants_witness:
  "reachable_guarded id id ex_diamond_removed
   \<and> reachable id id ex_stem_cycle
   \<and> stem_ok ex_diamond_removed \<and> nonstem_parents ex_diamond_removed
   \<and> symmetric (graph_m ex_diamond_removed)
   \<and> nonstem_parents ex_stem_cycle \<and> symmetric (graph_m ex_stem_cycle)"
  using structural_invariants[of id id ex_diamond_removed]
    structural_invariants[of id id ex_stem_cycle]
    guarded_ex_diamond_removed reachable_ex_stem_cycle
  by blast

text \<open>
  The claim as it is written fails after \<^verbatim>\<open>create(1, 0)\<close> and \<^verbatim>\<open>connect(0, 1)\<close> on
  a genealogy with stem \<open>0\<close>: the stem has the parent \<open>1\<close>, and \<^verbatim>\<open>remove(1)\<close> then
  removes the stem with it, leaving the empty graph.
\<close>

theorem structural_invariants_counterexample:
  "reachable id id ex_stem_cycle \<and> \<not> stem_ok ex_stem_cycle
   \<and> remove_op (Suc (Suc 0)) None 1 ex_stem_cycle = Some (Inr (), ex_stem_removed)
   \<and> reachable id id ex_stem_removed
   \<and> graph_m ex_stem_removed (stem_id ex_stem_removed) = None"
proof -
  have "\<not> stem_ok ex_stem_cycle"
    by (simp add: stem_ok_def ex_stem_cycle_eq)
  moreover have "remove_op (Suc (Suc 0)) None 1 ex_stem_cycle = Some (Inr (), ex_stem_removed)"
    by (simp add: ex_stem_cycle_remove ex_stem_removed_eq del: One_nat_def)
  moreover have "graph_m ex_stem_removed (stem_id ex_stem_removed) = None"
    by (simp add: ex_stem_removed_eq)
  ultimately show ?thesis
    using reachable_ex_stem_cycle reachable_ex_stem_removed by blast
qed

section \<open>Errors of \<^verbatim>\<open>remove\<close>\<close>

text \<open>
  C6, as the code has it: with a parameter type that does not throw and whatever the
  fuel, \<^verbatim>\<open>remove(id)\<close> throws \<^verbatim>\<open>VirusNotFound\<close> when the identifier is not in the
  graph, and \<^verbatim>\<open>TriedToRemoveStemVirus\<close> when the identifier is the stem and the stem
  is in the graph, which it is in every state reached without \<^verbatim>\<open>connect\<close> on the
  stem as a child; whenever \<^verbatim>\<open>remove\<close> throws, the state is the one before the
  call.
\<close>

theorem remove_errors:
  "(graph_m s k = None \<longrightarrow> remove_op n None k s = Some (Inl VirusNotFound, s))
   \<and> (graph_m s (stem_id s) \<noteq> None \<longrightarrow>
        remove_op n None (stem_id s) s = Some (Inl TriedToRemoveStemVirus, s))
   \<and> (reachable_guarded Virus get_id s \<longrightarrow>
        remove_op n None (stem_id s) s = Some (Inl TriedToRemoveStemVirus, s))
   \<and> (remove_op n b k s = Some (Inl e, s') \<longrightarrow> s' = s)"
proof -
  have a1: "graph_m s k = None \<longrightarrow> remove_op n None k s = Some (Inl VirusNotFound, s)"
    by (simp add: remove_op_def)
  have a2: "graph_m s (stem_id s) \<noteq> None \<longrightarrow>
        remove_op n None (stem_id s) s = Some (Inl TriedToRemoveStemVirus, s)"
    by (simp add: remove_op_def)
  have a3: "reachable_guarded Virus get_id s \<longrightarrow>
        remove_op n None (stem_id s) s = Some (Inl TriedToRemoveStemVirus, s)"
  proof
    assume "reachable_guarded Virus get_id s"
    then have "stem_ok s" by (rule guarded_stem_ok)
    then have "graph_m s (stem_id s) \<noteq> None" by (auto simp: stem_ok_def)
    with a2 show "remove_op n None (stem_id s) s = Some (Inl TriedToRemoveStemVirus, s)"
      by simp
  qed
  have a4: "remove_op n b k s = Some (Inl e, s') \<longrightarrow> s' = s"
    by (rule impI) (rule remove_op_Inl)
  show ?thesis by (rule conjI[OF a1 conjI[OF a2 conjI[OF a3 a4]]])
qed

theorem remove_errors_witness:
  "reachable_guarded id id ex_diamond \<and> graph_m ex_diamond 7 = None
   \<and> stem_id ex_diamond = 0 \<and> graph_m ex_diamond 0 \<noteq> None
   \<and> remove_op 5 None 7 ex_diamond = Some (Inl VirusNotFound, ex_diamond)
   \<and> remove_op 5 None 0 ex_diamond = Some (Inl TriedToRemoveStemVirus, ex_diamond)"
proof -
  have h: "graph_m ex_diamond 7 = None" "stem_id ex_diamond = 0"
    "graph_m ex_diamond 0 \<noteq> None"
    by (simp_all add: ex_diamond_eq)
  from remove_errors[of ex_diamond 7 5 id id] h(1)
  have w1: "remove_op 5 None 7 ex_diamond = Some (Inl VirusNotFound, ex_diamond)"
    by blast
  from remove_errors[of ex_diamond 7 5 id id] guarded_ex_diamond h(2)
  have w2: "remove_op 5 None 0 ex_diamond = Some (Inl TriedToRemoveStemVirus, ex_diamond)"
    by simp
  from guarded_ex_diamond h w1 w2 show ?thesis by blast
qed

text \<open>
  The claim as it is written (\<^verbatim>\<open>remove\<close> of the stem identifier always throws
  \<^verbatim>\<open>TriedToRemoveStemVirus\<close>) fails in the reachable state in which the cascade has
  removed the stem: the existence check comes first and throws \<^verbatim>\<open>VirusNotFound\<close>.
\<close>

theorem remove_errors_counterexample:
  "reachable id id ex_stem_removed
   \<and> remove_op (Suc 0) None (stem_id ex_stem_removed) ex_stem_removed
       = Some (Inl VirusNotFound, ex_stem_removed)"
proof -
  have "remove_op (Suc 0) None (stem_id ex_stem_removed) ex_stem_removed
       = Some (Inl VirusNotFound, ex_stem_removed)"
    by (simp add: remove_op_def ex_stem_removed_eq)
  with reachable_ex_stem_removed show ?thesis by blast
qed

section \<open>The effect of \<^verbatim>\<open>create\<close> with one parent\<close>

lemma push_all_None: "push_all None xs acc = Inr (acc @ xs, None)"
  by (induction xs arbitrary: acc) simp_all

lemma get_parents_None:
  "graph_m s k = Some n \<Longrightarrow> get_parents None s k = Inr (sorted_list_of_set (parents n))"
  by (simp add: get_parents_def push_all_None)

text \<open>
  C4: in a reachable state, \<^verbatim>\<open>create(id, parentId)\<close> with a new identifier and an
  existing parent returns normally when the parameter type does not throw; and
  whenever it returns normally, \<^verbatim>\<open>exists(id)\<close> is true, \<^verbatim>\<open>get_parents(id)\<close> is the
  one-element vector \<open>[parentId]\<close>, and \<open>id\<close> is among the children of the parent.
\<close>

theorem create_effect:
  assumes reach: "reachable Virus get_id s"
  shows "(graph_m s k = None \<and> graph_m s p \<noteq> None \<longrightarrow> fst (create None k p s) = Inr ())
     \<and> (create b k p s = (Inr (), s') \<longrightarrow>
          graph_m s k = None \<and> graph_m s p \<noteq> None
          \<and> exists None s' k = Inr True \<and> get_parents None s' k = Inr [p]
          \<and> (\<exists>np. graph_m s' p = Some np \<and> k \<in> children np))"
proof -
  have vok: "virus_ok (graph_m s)" using reachable_inv[OF reach] by (simp add: wf_genealogy_def)
  have a1: "graph_m s k = None \<and> graph_m s p \<noteq> None \<longrightarrow> fst (create None k p s) = Inr ()"
    by (auto simp: create_def create_try_def)
  have a2: "create b k p s = (Inr (), s') \<longrightarrow>
          graph_m s k = None \<and> graph_m s p \<noteq> None
          \<and> exists None s' k = Inr True \<and> get_parents None s' k = Inr [p]
          \<and> (\<exists>np. graph_m s' p = Some np \<and> k \<in> children np)"
  proof
    assume run: "create b k p s = (Inr (), s')"
    from create_Inr[OF run] obtain np where
      n: "graph_m s k = None" "graph_m s p = Some np"
         "s' = s\<lparr>graph_m := (graph_m s)
           (k \<mapsto> \<lparr>children = {}, parents = {virus np}, virus = k\<rparr>,
            p \<mapsto> np\<lparr>children := insert k (children np)\<rparr>)\<rparr>"
      by blast
    have v: "virus np = p" using vok n(2) by (simp add: virus_ok_def)
    have pk: "p \<noteq> k" using n(1,2) by auto
    have kn: "graph_m s' k = Some \<lparr>children = {}, parents = {p}, virus = k\<rparr>"
      using pk v by (simp add: n(3))
    have pn: "graph_m s' p = Some (np\<lparr>children := insert k (children np)\<rparr>)"
      by (simp add: n(3))
    have "exists None s' k = Inr True" using kn by (simp add: exists_def)
    moreover have "get_parents None s' k = Inr [p]"
      using get_parents_None[OF kn] by simp
    moreover have "\<exists>np. graph_m s' p = Some np \<and> k \<in> children np"
      using pn by simp
    ultimately show "graph_m s k = None \<and> graph_m s p \<noteq> None
          \<and> exists None s' k = Inr True \<and> get_parents None s' k = Inr [p]
          \<and> (\<exists>np. graph_m s' p = Some np \<and> k \<in> children np)"
      using n(1,2) by simp
  qed
  show ?thesis by (rule conjI[OF a1 a2])
qed

theorem create_effect_witness:
  "reachable id id (construct 0 :: (nat, nat) genealogy)
   \<and> create None 1 0 (construct 0) = (Inr (), ex_chain)
   \<and> exists None ex_chain 1 = Inr True \<and> get_parents None ex_chain 1 = Inr [0]
   \<and> (\<exists>np. graph_m ex_chain 0 = Some np \<and> 1 \<in> children np)"
proof -
  let ?s0 = "construct 0 :: (nat, nat) genealogy"
  have r: "reachable id id ?s0" by (rule r_construct)
  have h: "graph_m ?s0 1 = None \<and> graph_m ?s0 0 \<noteq> None" by (simp add: construct_def)
  from create_effect[OF r, of 1 0 None ex_chain] h
  have "fst (create None 1 0 ?s0) = Inr ()" by blast
  then have run: "create None 1 0 ?s0 = (Inr (), ex_chain)"
    unfolding ex_chain_def by (metis prod.collapse)
  with create_effect[OF r, of 1 0 None ex_chain]
  have "exists None ex_chain 1 = Inr True \<and> get_parents None ex_chain 1 = Inr [0]
     \<and> (\<exists>np. graph_m ex_chain 0 = Some np \<and> 1 \<in> children np)"
    by blast
  with r run show ?thesis by blast
qed

section \<open>Idempotence of \<^verbatim>\<open>connect\<close>\<close>

lemma connect_linked:
  assumes "graph_m s c = Some nc" and "graph_m s p \<noteq> None" and "p \<in> parents nc"
  shows "connect None c p s = (Inr (), s)"
  using assms by (auto simp: connect_def connect_graph_def)

text \<open>
  C9: in a reachable state and with a parameter type that does not throw,
  \<^verbatim>\<open>connect(childId, parentId)\<close> on two identifiers of the graph returns normally,
  and a second call with the same pair returns normally and leaves the state the
  first call produced; when the parent is already among the parents of the child,
  the call returns normally and the state is unchanged.
\<close>

theorem connect_idempotent:
  assumes reach: "reachable Virus get_id s"
    and c: "graph_m s c \<noteq> None" and p: "graph_m s p \<noteq> None"
  shows "fst (connect None c p s) = Inr ()
     \<and> connect None c p (snd (connect None c p s)) = (Inr (), snd (connect None c p s))
     \<and> (\<forall>nc. graph_m s c = Some nc \<longrightarrow> p \<in> parents nc \<longrightarrow> connect None c p s = (Inr (), s))"
proof -
  have vok: "virus_ok (graph_m s)" using reachable_inv[OF reach] by (simp add: wf_genealogy_def)
  from c p obtain nc np where n: "graph_m s c = Some nc" "graph_m s p = Some np" by blast
  have v: "virus nc = c" "virus np = p" using vok n by (simp_all add: virus_ok_def)
  have a3: "\<forall>nc. graph_m s c = Some nc \<longrightarrow> p \<in> parents nc \<longrightarrow> connect None c p s = (Inr (), s)"
    by (intro allI impI) (rule connect_linked[OF _ p])
  have a1: "fst (connect None c p s) = Inr ()"
    using n by (auto simp: connect_def connect_graph_def Let_def)
  let ?s1 = "snd (connect None c p s)"
  have "\<exists>nc1. graph_m ?s1 c = Some nc1 \<and> p \<in> parents nc1 \<and> graph_m ?s1 p \<noteq> None"
  proof (cases "p \<in> parents nc")
    case True
    with connect_linked[OF n(1) p] have "?s1 = s" by simp
    with n True show ?thesis by simp
  next
    case False
    then show ?thesis
      using n v by (auto simp: connect_def connect_graph_def Let_def)
  qed
  then obtain nc1 where "graph_m ?s1 c = Some nc1" "graph_m ?s1 p \<noteq> None" "p \<in> parents nc1"
    by blast
  then have a2: "connect None c p ?s1 = (Inr (), ?s1)" by (rule connect_linked)
  show ?thesis by (rule conjI[OF a1 conjI[OF a2 a3]])
qed

theorem connect_idempotent_witness:
  "reachable id id ex_diamond \<and> graph_m ex_diamond 3 \<noteq> None \<and> graph_m ex_diamond 0 \<noteq> None
   \<and> fst (connect None 3 0 ex_diamond) = Inr ()
   \<and> connect None 3 0 (snd (connect None 3 0 ex_diamond))
       = (Inr (), snd (connect None 3 0 ex_diamond))
   \<and> connect None 3 1 ex_diamond = (Inr (), ex_diamond)"
proof -
  have r: "reachable id id ex_diamond"
    using guarded_ex_diamond by (rule guarded_reachable)
  have h: "graph_m ex_diamond 3 \<noteq> None" "graph_m ex_diamond 0 \<noteq> None"
    "graph_m ex_diamond 1 \<noteq> None"
    "graph_m ex_diamond 3 = Some \<lparr>children = {}, parents = {1, 2}, virus = 3\<rparr>"
    by (simp_all add: ex_diamond_eq)
  from connect_idempotent[OF r h(1) h(2)]
  have w1: "fst (connect None 3 0 ex_diamond) = Inr ()"
    and w2: "connect None 3 0 (snd (connect None 3 0 ex_diamond))
       = (Inr (), snd (connect None 3 0 ex_diamond))"
    by blast+
  from connect_idempotent[OF r h(1) h(3)] h(4)
  have w3: "connect None 3 1 ex_diamond = (Inr (), ex_diamond)"
    by simp
  from r h(1,2) w1 w2 w3 show ?thesis by blast
qed

section \<open>Iterating over the children\<close>

lemma it_deref_cached:
  assumes gv: "\<forall>x. get_id (Virus x) = x" and ok: "cache_ok Virus vs" and i: "i < length xs"
  shows "\<exists>vs'. cache_ok Virus vs'
     \<and> it_deref Virus get_id None \<lparr>children_vec_it = i, it_range = xs, it_virus_set = vs\<rparr>
         = Inr (Virus (xs ! i), \<lparr>children_vec_it = i, it_range = xs, it_virus_set = vs'\<rparr>)"
proof (cases "vs (xs ! i)")
  case None
  have "cache_ok Virus (vs(xs ! i \<mapsto> Virus (xs ! i)))"
    using ok by (simp add: cache_ok_def)
  moreover have "it_deref Virus get_id None
        \<lparr>children_vec_it = i, it_range = xs, it_virus_set = vs\<rparr>
      = Inr (Virus (xs ! i), \<lparr>children_vec_it = i, it_range = xs,
                               it_virus_set = vs(xs ! i \<mapsto> Virus (xs ! i))\<rparr>)"
    using gv i None by (simp add: it_deref_def vs_insert_b_def vs_find_b_def Let_def)
  ultimately show ?thesis by blast
next
  case (Some w)
  with ok have w: "w = Virus (xs ! i)" by (simp add: cache_ok_def)
  have "it_deref Virus get_id None
        \<lparr>children_vec_it = i, it_range = xs, it_virus_set = vs\<rparr>
      = Inr (Virus (xs ! i), \<lparr>children_vec_it = i, it_range = xs, it_virus_set = vs\<rparr>)"
    using gv i Some w by (simp add: it_deref_def vs_insert_b_def vs_find_b_def Let_def)
  with ok show ?thesis by blast
qed

lemma iterate_children_from:
  assumes gv: "\<forall>x. get_id (Virus x) = x"
  shows "i \<le> length xs \<Longrightarrow> cache_ok Virus vs \<Longrightarrow>
     iterate_children Virus get_id
       \<lparr>children_vec_it = i, it_range = xs, it_virus_set = vs\<rparr>
       \<lparr>children_vec_it = length xs, it_range = xs, it_virus_set = vs0\<rparr>
     = Inr (map Virus (drop i xs))"
proof (induction "length xs - i" arbitrary: i vs)
  case 0
  then have "i = length xs" by simp
  then show ?case
    by (subst iterate_children.simps) (simp add: it_eq_def del: iterate_children.simps)
next
  case (Suc d)
  then have i: "i < length xs" by simp
  from it_deref_cached[OF gv Suc.prems(2) i] obtain vs' where
    vs': "cache_ok Virus vs'"
      "it_deref Virus get_id None \<lparr>children_vec_it = i, it_range = xs, it_virus_set = vs\<rparr>
         = Inr (Virus (xs ! i), \<lparr>children_vec_it = i, it_range = xs, it_virus_set = vs'\<rparr>)"
    by blast
  have d: "d = length xs - Suc i" using Suc.hyps(2) by simp
  have ih: "iterate_children Virus get_id
       \<lparr>children_vec_it = Suc i, it_range = xs, it_virus_set = vs'\<rparr>
       \<lparr>children_vec_it = length xs, it_range = xs, it_virus_set = vs0\<rparr>
     = Inr (map Virus (drop (Suc i) xs))"
    using Suc.hyps(1)[OF d _ vs'(1)] i by simp
  have "iterate_children Virus get_id
       \<lparr>children_vec_it = i, it_range = xs, it_virus_set = vs\<rparr>
       \<lparr>children_vec_it = length xs, it_range = xs, it_virus_set = vs0\<rparr>
     = Inr (Virus (xs ! i) # map Virus (drop (Suc i) xs))"
    using i by (subst iterate_children.simps)
      (simp add: it_eq_def vs'(2) it_incr_def ih del: iterate_children.simps)
  also have "Virus (xs ! i) # map Virus (drop (Suc i) xs) = map Virus (drop i xs)"
    using i by (simp add: Cons_nth_drop_Suc[symmetric])
  finally show ?case .
qed

text \<open>
  C8: in a reachable state, for a payload type that does not throw and whose
  identifier is the one it was constructed from: when the identifier is not in the
  graph, \<^verbatim>\<open>get_children_begin\<close> and \<^verbatim>\<open>get_children_end\<close> both throw
  \<^verbatim>\<open>VirusNotFound\<close>; when it is, both return, and the loop from the first iterator
  to the second yields the payloads of the children of the node, each once, in
  strictly ascending order of the identifiers, and every such child is a node of the
  graph that has the identifier among its parents.
\<close>

theorem children_iteration:
  assumes reach: "reachable Virus get_id s" and gv: "\<forall>x. get_id (Virus x) = x"
  shows "(graph_m s k = None \<longrightarrow>
        get_children_begin None s k = Inl VirusNotFound
      \<and> get_children_end None s k = Inl VirusNotFound)
     \<and> (\<forall>n. graph_m s k = Some n \<longrightarrow>
          (\<exists>first fin. get_children_begin None s k = Inr first
             \<and> get_children_end None s k = Inr fin
             \<and> iterate_children Virus get_id first fin
                 = Inr (map Virus (sorted_list_of_set (children n))))
          \<and> set (sorted_list_of_set (children n)) = children n
          \<and> sorted_wrt (<) (sorted_list_of_set (children n))
          \<and> (\<forall>c\<in>children n. \<exists>nc. graph_m s c = Some nc \<and> k \<in> parents nc))"
proof -
  have i: "wf_genealogy s" using reach by (rule reachable_inv)
  then have fok: "finite_ok (graph_m s)" and sym: "symmetric (graph_m s)"
    by (simp_all add: wf_genealogy_def)
  have cok: "cache_ok Virus (virus_set s)" using gv reach by (rule reachable_cache_ok)
  have a1: "graph_m s k = None \<longrightarrow>
        get_children_begin None s k = Inl VirusNotFound
      \<and> get_children_end None s k = Inl VirusNotFound"
    by (simp add: get_children_begin_def get_children_end_def)
  have a2: "\<forall>n. graph_m s k = Some n \<longrightarrow>
          (\<exists>first fin. get_children_begin None s k = Inr first
             \<and> get_children_end None s k = Inr fin
             \<and> iterate_children Virus get_id first fin
                 = Inr (map Virus (sorted_list_of_set (children n))))
          \<and> set (sorted_list_of_set (children n)) = children n
          \<and> sorted_wrt (<) (sorted_list_of_set (children n))
          \<and> (\<forall>c\<in>children n. \<exists>nc. graph_m s c = Some nc \<and> k \<in> parents nc)"
  proof (intro allI impI)
    fix n assume n: "graph_m s k = Some n"
    let ?xs = "sorted_list_of_set (children n)"
    have fin: "finite (children n)" using fok n by (simp add: finite_ok_def)
    have b: "get_children_begin None s k
        = Inr \<lparr>children_vec_it = 0, it_range = ?xs, it_virus_set = virus_set s\<rparr>"
      using n by (simp add: get_children_begin_def)
    have e: "get_children_end None s k
        = Inr \<lparr>children_vec_it = length ?xs, it_range = ?xs, it_virus_set = virus_set s\<rparr>"
      using n by (simp add: get_children_end_def)
    have "iterate_children Virus get_id
        \<lparr>children_vec_it = 0, it_range = ?xs, it_virus_set = virus_set s\<rparr>
        \<lparr>children_vec_it = length ?xs, it_range = ?xs, it_virus_set = virus_set s\<rparr>
        = Inr (map Virus (drop 0 ?xs))"
      using gv _ cok by (rule iterate_children_from) simp
    with b e have p1: "\<exists>first fin. get_children_begin None s k = Inr first
             \<and> get_children_end None s k = Inr fin
             \<and> iterate_children Virus get_id first fin = Inr (map Virus ?xs)"
      by simp
    have p2: "set ?xs = children n" using fin by simp
    have p3: "sorted_wrt (<) ?xs" by (rule strict_sorted_list_of_set)
    have p4: "\<forall>c\<in>children n. \<exists>nc. graph_m s c = Some nc \<and> k \<in> parents nc"
      using symmetric_child[OF sym n] by blast
    from p1 p2 p3 p4 show "(\<exists>first fin. get_children_begin None s k = Inr first
             \<and> get_children_end None s k = Inr fin
             \<and> iterate_children Virus get_id first fin
                 = Inr (map Virus (sorted_list_of_set (children n))))
          \<and> set (sorted_list_of_set (children n)) = children n
          \<and> sorted_wrt (<) (sorted_list_of_set (children n))
          \<and> (\<forall>c\<in>children n. \<exists>nc. graph_m s c = Some nc \<and> k \<in> parents nc)"
      by (intro conjI)
  qed
  show ?thesis by (rule conjI[OF a1 a2])
qed

theorem children_iteration_witness:
  "reachable id id ex_diamond \<and> (\<forall>x :: nat. id (id x) = x)
   \<and> graph_m ex_diamond 1 = Some \<lparr>children = {2, 3}, parents = {0}, virus = 1\<rparr>
   \<and> (\<exists>first fin. get_children_begin None ex_diamond 1 = Inr first
         \<and> get_children_end None ex_diamond 1 = Inr fin
         \<and> iterate_children id id first fin = Inr [2, 3])
   \<and> get_children_begin None ex_diamond 7 = Inl VirusNotFound
   \<and> get_children_end None ex_diamond 7 = Inl VirusNotFound"
proof -
  have r: "reachable id id ex_diamond"
    using guarded_ex_diamond by (rule guarded_reachable)
  have gv: "\<forall>x :: nat. id (id x) = x" by simp
  have h: "graph_m ex_diamond 1 = Some \<lparr>children = {2, 3}, parents = {0}, virus = 1\<rparr>"
    "graph_m ex_diamond 7 = None"
    by (simp_all add: ex_diamond_eq)
  from children_iteration[OF r gv, of 1] h(1)
  have "\<exists>first fin. get_children_begin None ex_diamond 1 = Inr first
         \<and> get_children_end None ex_diamond 1 = Inr fin
         \<and> iterate_children id id first fin
             = Inr (map id (sorted_list_of_set
                 (children \<lparr>children = {2, 3 :: nat}, parents = {0 :: nat}, virus = 1 :: nat\<rparr>)))"
    by blast
  then have w1: "\<exists>first fin. get_children_begin None ex_diamond 1 = Inr first
         \<and> get_children_end None ex_diamond 1 = Inr fin
         \<and> iterate_children id id first fin = Inr [2, 3]"
    by (simp add: sorted_list_two)
  from children_iteration[OF r gv, of 7] h(2)
  have w2: "get_children_begin None ex_diamond 7 = Inl VirusNotFound"
    "get_children_end None ex_diamond 7 = Inl VirusNotFound"
    by blast+
  from r gv h(1) w1 w2 show ?thesis by (intro conjI)
qed

section \<open>Termination of \<^verbatim>\<open>remove\<close>\<close>

lemma children_loop_mono:
  assumes "\<And>b g c r. rec b g c = Some r \<Longrightarrow> rec' b g c = Some r"
  shows "children_loop rec b g0 k cs h = Some r \<Longrightarrow> children_loop rec' b g0 k cs h = Some r"
proof (induction cs arbitrary: b h)
  case Nil
  then show ?case by simp
next
  case (Cons c cs)
  show ?case
  proof (cases "at_b b h c")
    case (Inl e)
    with Cons.prems show ?thesis by auto
  next
    case (Inr x)
    then obtain nc b1 where at: "at_b b h c = Inr (nc, b1)" by (cases x) simp
    show ?thesis
    proof (cases "card (parents nc) = 1")
      case True
      show ?thesis
      proof (cases "copy_b b1 h")
        case (Inl e)
        with Cons.prems at True show ?thesis by auto
      next
        case (Inr y)
        then obtain arg b2 where cp: "copy_b b1 h = Inr (arg, b2)" by (cases y) simp
        from Cons.prems at True cp obtain r1 where r1: "rec b2 arg c = Some r1"
          by (cases "rec b2 arg c") auto
        then have r1': "rec' b2 arg c = Some r1" by (rule assms)
        show ?thesis
        proof (cases r1)
          case (Inl e)
          with Cons.prems at True cp r1 r1' show ?thesis by auto
        next
          case (Inr z)
          then obtain tmp b3 where z: "r1 = Inr (tmp, b3)" by (cases z) simp
          with Cons.prems at True cp r1
          have "children_loop rec b3 g0 k cs tmp = Some r" by simp
          then have "children_loop rec' b3 g0 k cs tmp = Some r" by (rule Cons.IH)
          with at True cp r1' z show ?thesis by auto
        qed
      qed
    next
      case False
      let ?step = "bindE (at_b b1 h c) (\<lambda>(nc', b2).
                  bindE (at_b b2 g0 k) (\<lambda>(n0, b3).
                  bindE (set_erase_b b3 (virus n0) (parents nc')) (\<lambda>(ps, b4).
                    Inr (h(c \<mapsto> nc'\<lparr>parents := ps\<rparr>), b4))))"
      show ?thesis
      proof (cases ?step)
        case (Inl e)
        with Cons.prems at False show ?thesis by auto
      next
        case (Inr y)
        then obtain h1 b' where st: "?step = Inr (h1, b')" by (cases y) simp
        with Cons.prems at False
        have "children_loop rec b' g0 k cs h1 = Some r" by simp
        then have "children_loop rec' b' g0 k cs h1 = Some r" by (rule Cons.IH)
        with at False st show ?thesis by auto
      qed
    qed
  qed
qed

lemma remove_helper_Suc:
  "remove_helper n b g0 cg k = Some r \<Longrightarrow> remove_helper (Suc n) b g0 cg k = Some r"
proof (induction n arbitrary: b cg k r)
  case 0
  then show ?case by simp
next
  case (Suc n)
  let ?rec = "\<lambda>b' g c. remove_helper n b' g0 g c"
  let ?rec' = "\<lambda>b' g c. remove_helper (Suc n) b' g0 g c"
  have mono: "children_loop ?rec b' g0 k' cs h = Some r'
      \<Longrightarrow> children_loop ?rec' b' g0 k' cs h = Some r'" for b' k' cs h r'
    using Suc.IH by (rule children_loop_mono)
  show ?case
  proof (cases "bindE (at_b b cg k) (\<lambda>(nd, b1). copy_b b1 (children nd))")
    case (Inl e)
    with Suc.prems show ?thesis by auto
  next
    case (Inr x)
    then obtain cc b2 where s1: "bindE (at_b b cg k) (\<lambda>(nd, b1). copy_b b1 (children nd))
        = Inr (cc, b2)"
      by (cases x) simp
    show ?thesis
    proof (cases "bindE (at_b b2 cg k) (\<lambda>(nd', b3).
                 detach_parents b3 g0 k (sorted_list_of_set (parents nd')) cg)")
      case (Inl e)
      with Suc.prems s1 show ?thesis by auto
    next
      case (Inr y)
      then obtain cg1 b4 where s2: "bindE (at_b b2 cg k) (\<lambda>(nd', b3).
                 detach_parents b3 g0 k (sorted_list_of_set (parents nd')) cg) = Inr (cg1, b4)"
        by (cases y) simp
      from Suc.prems s1 s2 obtain r1 where
        l: "children_loop ?rec b4 g0 k (sorted_list_of_set cc) cg1 = Some r1"
        by (cases "children_loop ?rec b4 g0 k (sorted_list_of_set cc) cg1") auto
      from mono[OF l] have l': "children_loop ?rec' b4 g0 k (sorted_list_of_set cc) cg1 = Some r1" .
      from Suc.prems s1 s2 l l' show ?thesis
        by (simp del: remove_helper.simps add: remove_helper.simps(2)[of "Suc n"]
              remove_helper.simps(2)[of n])
    qed
  qed
qed

lemma remove_helper_le:
  "n \<le> m \<Longrightarrow> remove_helper n b g0 cg k = Some r \<Longrightarrow> remove_helper m b g0 cg k = Some r"
  by (induction m) (auto simp: le_Suc_eq dest: remove_helper_Suc simp del: remove_helper.simps)

lemma listing_ok_shrink:
  assumes l: "listing_ok D h" and s: "shrink X h h'" and X: "X \<inter> dom h' \<subseteq> D"
  shows "listing_ok D h'"
  unfolding listing_ok_def
proof (intro allI impI)
  fix y n' q
  assume y: "h' y = Some n'" and yD: "y \<notin> D" and q: "q \<in> children n'"
  from shrink_node[OF s y] obtain n where n: "h y = Some n" "children n' \<subseteq> children n"
    by (auto simp: node_shrink_def)
  with q have qn: "q \<in> children n" by blast
  from l n(1) yD qn have qD: "q \<notin> D" and par: "\<forall>nq. h q = Some nq \<longrightarrow> y \<in> parents nq"
    unfolding listing_ok_def by blast+
  have yX: "y \<notin> X" using X y yD by auto
  have "\<forall>nq'. h' q = Some nq' \<longrightarrow> y \<in> parents nq'"
  proof (intro allI impI)
    fix nq' assume "h' q = Some nq'"
    from shrink_node[OF s this] obtain nq where "h q = Some nq" "parents nq - X \<subseteq> parents nq'"
      by (auto simp: node_shrink_def)
    with par yX show "y \<in> parents nq'" by blast
  qed
  with qD show "q \<notin> D \<and> (\<forall>nq. h' q = Some nq \<longrightarrow> y \<in> parents nq)" by simp
qed

lemma listing_ok_symmetric: "symmetric g \<Longrightarrow> listing_ok {} g"
  unfolding listing_ok_def
  by (metis empty_iff option.inject symmetric_child)

lemma listing_ok_detached:
  assumes l: "listing_ok D cg" and k: "cg k = Some nd" and kc: "children nd \<inter> D = {}"
    and cg1: "cg1 = (\<lambda>q. if q \<in> parents nd
                     then map_option (\<lambda>n. n\<lparr>children := children n - {k}\<rparr>) (cg q)
                     else cg q)"
  shows "listing_ok (insert k D) cg1"
    and "\<forall>n1. cg1 k = Some n1 \<longrightarrow> children n1 \<inter> insert k D = {}"
proof -
  have self: "k \<in> children nd \<Longrightarrow> k \<in> parents nd"
  proof -
    assume a: "k \<in> children nd"
    with kc have "k \<notin> D" by blast
    with l k a show "k \<in> parents nd" unfolding listing_ok_def by blast
  qed
  show "listing_ok (insert k D) cg1"
    unfolding listing_ok_def
  proof (intro allI impI)
    fix y n1 q
    assume y: "cg1 y = Some n1" and yD: "y \<notin> insert k D" and q: "q \<in> children n1"
    from y obtain n where n: "cg y = Some n"
      and cs: "children n1 = (if y \<in> parents nd then children n - {k} else children n)"
      unfolding cg1 by (auto split: if_splits)
    from q cs have qn: "q \<in> children n" by (auto split: if_splits)
    from l n yD qn have qD: "q \<notin> D" and par: "\<forall>nq. cg q = Some nq \<longrightarrow> y \<in> parents nq"
      unfolding listing_ok_def by blast+
    have "q \<noteq> k"
    proof
      assume "q = k"
      with par k have "y \<in> parents nd" by simp
      with cs q \<open>q = k\<close> show False by simp
    qed
    moreover have "\<forall>nq. cg1 q = Some nq \<longrightarrow> y \<in> parents nq"
      using par unfolding cg1 by (auto split: if_splits)
    ultimately show "q \<notin> insert k D \<and> (\<forall>nq. cg1 q = Some nq \<longrightarrow> y \<in> parents nq)"
      using qD by simp
  qed
  show "\<forall>n1. cg1 k = Some n1 \<longrightarrow> children n1 \<inter> insert k D = {}"
    using k kc self unfolding cg1 by (auto split: if_splits)
qed

lemma children_loop_terminates:
  assumes rec_spec: "\<And>b g c g' b'. rec b g c = Some (Inr (g', b')) \<Longrightarrow> finite_ok g \<Longrightarrow>
            g c \<noteq> None \<and> g' c = None \<and> shrink (dom g - dom g') g g' \<and> erased {} g g'
            \<and> (\<forall>r nr. g r = Some nr \<longrightarrow> g' r = None \<longrightarrow> r \<noteq> c \<longrightarrow> parents nr \<noteq> {})"
    and rec_term: "\<And>b h c. finite (dom h) \<Longrightarrow> finite_ok h \<Longrightarrow> listing_ok D h
            \<Longrightarrow> (\<forall>n. h c = Some n \<longrightarrow> children n \<inter> D = {})
            \<Longrightarrow> 2 * card (dom h - D) + (if c \<in> D then 1 else 0) < N
            \<Longrightarrow> rec b h c \<noteq> None"
    and vok: "virus_ok g0" and kD: "k \<in> D"
  shows "finite (dom h) \<Longrightarrow> finite_ok h \<Longrightarrow> listing_ok D h
     \<Longrightarrow> (\<forall>n. h k = Some n \<longrightarrow> children n \<inter> D = {})
     \<Longrightarrow> (\<forall>c\<in>set cs. c \<notin> D \<or> c = k)
     \<Longrightarrow> (\<forall>c\<in>set cs. 2 * card (dom h - D) + (if c \<in> D then 1 else 0) < N)
     \<Longrightarrow> children_loop rec b g0 k cs h \<noteq> None"
proof (induction cs arbitrary: b h)
  case Nil
  then show ?case by simp
next
  case (Cons c cs)
  note fd = Cons.prems(1) and fo = Cons.prems(2) and lo = Cons.prems(3)
    and kc = Cons.prems(4) and cD = Cons.prems(5) and bd = Cons.prems(6)
  have next_ok: "children_loop rec b' g0 k cs h' \<noteq> None"
    if s: "shrink X h h'" and X: "X \<inter> dom h' \<subseteq> D" for b' h' X
  proof (rule Cons.IH)
    have sub: "dom h' \<subseteq> dom h" using s by (rule shrink_dom_subset)
    show "finite (dom h')" using sub fd by (rule finite_subset)
    show "finite_ok h'" using fo s by (rule finite_ok_shrink)
    show "listing_ok D h'" using lo s X by (rule listing_ok_shrink)
    show "\<forall>n. h' k = Some n \<longrightarrow> children n \<inter> D = {}"
    proof (intro allI impI)
      fix n' assume "h' k = Some n'"
      from shrink_node[OF s this] obtain n where "h k = Some n" "children n' \<subseteq> children n"
        by (auto simp: node_shrink_def)
      with kc show "children n' \<inter> D = {}" by blast
    qed
    show "\<forall>c\<in>set cs. c \<notin> D \<or> c = k" using cD by simp
    have "card (dom h' - D) \<le> card (dom h - D)"
      using sub fd by (intro card_mono) auto
    with bd show "\<forall>c\<in>set cs. 2 * card (dom h' - D) + (if c \<in> D then 1 else 0) < N"
      by fastforce
  qed
  show ?case
  proof (cases "at_b b h c")
    case (Inl e)
    then show ?thesis by simp
  next
    case (Inr x)
    then obtain nc b1 where at: "at_b b h c = Inr (nc, b1)" by (cases x) simp
    have hc: "h c = Some nc" using at by (rule at_b_Inr)
    show ?thesis
    proof (cases "card (parents nc) = 1")
      case True
      show ?thesis
      proof (cases "copy_b b1 h")
        case (Inl e)
        with at True show ?thesis by simp
      next
        case (Inr y)
        then obtain arg b2 where cp: "copy_b b1 h = Inr (arg, b2)" by (cases y) simp
        have arg: "arg = h" using cp by (rule copy_b_Inr)
        have cc: "\<forall>n. h c = Some n \<longrightarrow> children n \<inter> D = {}"
        proof (cases "c = k")
          case True
          with kc show ?thesis by simp
        next
          case False
          with cD have "c \<notin> D" by simp
          with lo show ?thesis unfolding listing_ok_def by blast
        qed
        have "2 * card (dom h - D) + (if c \<in> D then 1 else 0) < N" using bd by simp
        with fd fo lo cc have "rec b2 h c \<noteq> None" by (rule rec_term)
        then obtain r1 where r1: "rec b2 h c = Some r1" by blast
        show ?thesis
        proof (cases r1)
          case (Inl e)
          with at True cp arg r1 show ?thesis by simp
        next
          case (Inr z)
          then obtain tmp b3 where z: "r1 = Inr (tmp, b3)" by (cases z) simp
          from rec_spec[OF r1[unfolded z] fo]
          have s: "shrink (dom h - dom tmp) h tmp" by blast
          have "children_loop rec b3 g0 k cs tmp \<noteq> None"
            using s by (rule next_ok) blast
          with at True cp arg r1 z show ?thesis by simp
        qed
      qed
    next
      case False
      let ?step = "bindE (at_b b1 h c) (\<lambda>(nc', b2).
                  bindE (at_b b2 g0 k) (\<lambda>(n0, b3).
                  bindE (set_erase_b b3 (virus n0) (parents nc')) (\<lambda>(ps, b4).
                    Inr (h(c \<mapsto> nc'\<lparr>parents := ps\<rparr>), b4))))"
      show ?thesis
      proof (cases ?step)
        case (Inl e)
        with at False show ?thesis by simp
      next
        case (Inr y)
        then obtain h1 b' where st: "?step = Inr (h1, b')" by (cases y) simp
        then obtain nc' b2 n0 b3 ps b4 where
          t: "at_b b1 h c = Inr (nc', b2)" "at_b b2 g0 k = Inr (n0, b3)"
             "set_erase_b b3 (virus n0) (parents nc') = Inr (ps, b4)"
             "h1 = h(c \<mapsto> nc'\<lparr>parents := ps\<rparr>)"
          by (auto simp: bindE_eq_Inr)
        have "nc' = nc" using at_b_Inr[OF t(1)] hc by simp
        moreover have "virus n0 = k" using at_b_Inr[OF t(2)] vok by (simp add: virus_ok_def)
        moreover have "ps = parents nc' - {virus n0}" using t(3) by (rule set_erase_b_Inr)
        ultimately have h1: "h1 = h(c \<mapsto> nc\<lparr>parents := parents nc - {k}\<rparr>)"
          using t(4) by simp
        have s: "shrink {k} h h1" unfolding h1 using hc False by (rule shrink_upd_parents)
        have "children_loop rec b' g0 k cs h1 \<noteq> None"
          using s by (rule next_ok) (use kD in blast)
        with at False st show ?thesis by simp
      qed
    qed
  qed
qed

lemma remove_helper_terminates:
  assumes vok: "virus_ok g0"
  shows "finite (dom cg) \<Longrightarrow> finite_ok cg \<Longrightarrow> listing_ok D cg
     \<Longrightarrow> (\<forall>n. cg k = Some n \<longrightarrow> children n \<inter> D = {})
     \<Longrightarrow> 2 * card (dom cg - D) + (if k \<in> D then 1 else 0) < N
     \<Longrightarrow> remove_helper N b g0 cg k \<noteq> None"
proof (induction N arbitrary: D cg k b)
  case 0
  then show ?case by simp
next
  case (Suc N)
  note fd = Suc.prems(1) and fo = Suc.prems(2) and lo = Suc.prems(3)
    and kc = Suc.prems(4) and bd = Suc.prems(5)
  let ?rec = "\<lambda>b' g c. remove_helper N b' g0 g c"
  show ?case
  proof (cases "bindE (at_b b cg k) (\<lambda>(nd, b1). copy_b b1 (children nd))")
    case (Inl e)
    then show ?thesis by simp
  next
    case (Inr x)
    then obtain cc b2 where s1: "bindE (at_b b cg k) (\<lambda>(nd, b1). copy_b b1 (children nd))
        = Inr (cc, b2)"
      by (cases x) simp
    then obtain nd b1 where at: "at_b b cg k = Inr (nd, b1)"
      and cp: "copy_b b1 (children nd) = Inr (cc, b2)"
      by (auto simp: bindE_eq_Inr)
    have k: "cg k = Some nd" using at by (rule at_b_Inr)
    have cc: "cc = children nd" using cp by (rule copy_b_Inr)
    have fin: "finite (children nd)" "finite (parents nd)"
      using fo k by (auto simp: finite_ok_def)
    show ?thesis
    proof (cases "bindE (at_b b2 cg k) (\<lambda>(nd', b3).
                 detach_parents b3 g0 k (sorted_list_of_set (parents nd')) cg)")
      case (Inl e)
      with s1 show ?thesis by simp
    next
      case (Inr y)
      then obtain cg1 b4 where s2: "bindE (at_b b2 cg k) (\<lambda>(nd', b3).
                 detach_parents b3 g0 k (sorted_list_of_set (parents nd')) cg) = Inr (cg1, b4)"
        by (cases y) simp
      then obtain nd' b3 where at2: "at_b b2 cg k = Inr (nd', b3)"
        and dp: "detach_parents b3 g0 k (sorted_list_of_set (parents nd')) cg = Inr (cg1, b4)"
        by (auto simp: bindE_eq_Inr)
      have "nd' = nd" using at_b_Inr[OF at2] k by simp
      with detach_parents_Inr[OF dp vok] fin have
        cg1: "cg1 = (\<lambda>q. if q \<in> parents nd
                     then map_option (\<lambda>n. n\<lparr>children := children n - {k}\<rparr>) (cg q)
                     else cg q)"
        by simp
      have sh: "shrink {k} cg cg1" and dom1: "dom cg1 = dom cg"
        using detach_parents_shrink[OF dp vok] by blast+
      have kcD: "children nd \<inter> D = {}" using kc k by simp
      note det = listing_ok_detached[OF lo k kcD cg1]
      have bound: "\<forall>c\<in>set (sorted_list_of_set cc).
          2 * card (dom cg1 - insert k D) + (if c \<in> insert k D then 1 else 0) < N"
      proof
        fix c assume "c \<in> set (sorted_list_of_set cc)"
        then have c: "c \<in> children nd" using cc fin by simp
        with kcD have cD: "c \<notin> D" by blast
        show "2 * card (dom cg1 - insert k D) + (if c \<in> insert k D then 1 else 0) < N"
        proof (cases "k \<in> D")
          case True
          then have "insert k D = D" by blast
          with True cD bd show ?thesis by (simp add: dom1)
        next
          case False
          have kin: "k \<in> dom cg - D" using k False by blast
          have "dom cg1 - insert k D = (dom cg - D) - {k}" by (auto simp: dom1)
          moreover have "card ((dom cg - D) - {k}) = card (dom cg - D) - 1"
            using kin by simp
          moreover have "card (dom cg - D) \<ge> 1"
            using kin fd by (metis One_nat_def Suc_leI card_gt_0_iff empty_iff finite_Diff)
          ultimately show ?thesis using bd False by (auto split: if_splits)
        qed
      qed
      have "children_loop ?rec b4 g0 k (sorted_list_of_set cc) cg1 \<noteq> None"
      proof (rule children_loop_terminates[where D = "insert k D" and N = N])
        show "\<And>b g c g' b'. remove_helper N b g0 g c = Some (Inr (g', b')) \<Longrightarrow> finite_ok g \<Longrightarrow>
            g c \<noteq> None \<and> g' c = None \<and> shrink (dom g - dom g') g g' \<and> erased {} g g'
            \<and> (\<forall>r nr. g r = Some nr \<longrightarrow> g' r = None \<longrightarrow> r \<noteq> c \<longrightarrow> parents nr \<noteq> {})"
          by (rule remove_helper_spec[OF vok])
        show "\<And>b h c. finite (dom h) \<Longrightarrow> finite_ok h \<Longrightarrow> listing_ok (insert k D) h
            \<Longrightarrow> (\<forall>n. h c = Some n \<longrightarrow> children n \<inter> insert k D = {})
            \<Longrightarrow> 2 * card (dom h - insert k D) + (if c \<in> insert k D then 1 else 0) < N
            \<Longrightarrow> remove_helper N b g0 h c \<noteq> None"
          by (rule Suc.IH)
        show "virus_ok g0" by (rule vok)
        show "k \<in> insert k D" by simp
        show "finite (dom cg1)" using fd by (simp add: dom1)
        show "finite_ok cg1" using fo sh by (rule finite_ok_shrink)
        show "listing_ok (insert k D) cg1" by (rule det(1))
        show "\<forall>n. cg1 k = Some n \<longrightarrow> children n \<inter> insert k D = {}" by (rule det(2))
        show "\<forall>c\<in>set (sorted_list_of_set cc). c \<notin> insert k D \<or> c = k"
          using cc fin kcD by auto
        show "\<forall>c\<in>set (sorted_list_of_set cc).
            2 * card (dom cg1 - insert k D) + (if c \<in> insert k D then 1 else 0) < N"
          by (rule bound)
      qed
      with s1 s2 show ?thesis by (auto split: sum.splits)
    qed
  qed
qed

lemma remove_op_terminates:
  assumes wf: "wf_genealogy s" and fd: "finite (dom (graph_m s))"
  shows "remove_op (2 * card (dom (graph_m s)) + 1) b k s \<noteq> None"
proof (cases "exists_b b (graph_m s) k")
  case (Inl e)
  then show ?thesis by (simp add: remove_op_def)
next
  case (Inr x)
  then obtain ex b1 where ex: "exists_b b (graph_m s) k = Inr (ex, b1)" by (cases x) simp
  let ?n = "2 * card (dom (graph_m s)) + 1"
  show ?thesis
  proof (cases "ex \<and> (\<exists>b2. tick b1 = Inr b2) \<and> k \<noteq> stem_id s")
    case False
    with ex show ?thesis
      by (auto simp: remove_op_def split: sum.splits)
  next
    case True
    then obtain b2 where t: "ex" "tick b1 = Inr b2" "k \<noteq> stem_id s" by blast
    show ?thesis
    proof (cases "bindE (copy_b b2 (graph_m s)) (\<lambda>(copied_graph, b3). copy_b b3 copied_graph)")
      case (Inl e)
      with ex t show ?thesis by (simp add: remove_op_def)
    next
      case (Inr y)
      then obtain arg b4 where cp: "bindE (copy_b b2 (graph_m s))
          (\<lambda>(copied_graph, b3). copy_b b3 copied_graph) = Inr (arg, b4)"
        by (cases y) simp
      then have arg: "arg = graph_m s"
        by (auto simp: bindE_eq_Inr dest!: copy_b_Inr)
      from wf have vok: "virus_ok (graph_m s)" and fo: "finite_ok (graph_m s)"
        and sym: "symmetric (graph_m s)"
        by (simp_all add: wf_genealogy_def)
      have "remove_helper ?n b4 (graph_m s) (graph_m s) k \<noteq> None"
        using vok fd fo listing_ok_symmetric[OF sym]
        by (rule remove_helper_terminates) simp_all
      then obtain r1 where r1: "remove_helper ?n b4 (graph_m s) arg k = Some r1"
        using arg by blast
      from ex t cp r1 show ?thesis
        by (cases r1) (auto simp: remove_op_def simp del: remove_helper.simps)
    qed
  qed
qed

lemma remove_op_le:
  assumes le: "n \<le> m" and run: "remove_op n b k s = Some r"
  shows "remove_op m b k s = Some r"
proof (cases "exists_b b (graph_m s) k")
  case (Inl e)
  with run show ?thesis by (simp add: remove_op_def)
next
  case (Inr x)
  then obtain ex b1 where ex: "exists_b b (graph_m s) k = Inr (ex, b1)" by (cases x) simp
  show ?thesis
  proof (cases "ex \<and> (\<exists>b2. tick b1 = Inr b2) \<and> k \<noteq> stem_id s")
    case False
    with run ex show ?thesis
      by (auto simp: remove_op_def split: sum.splits)
  next
    case True
    then obtain b2 where t: "ex" "tick b1 = Inr b2" "k \<noteq> stem_id s" by blast
    show ?thesis
    proof (cases "bindE (copy_b b2 (graph_m s)) (\<lambda>(copied_graph, b3). copy_b b3 copied_graph)")
      case (Inl e)
      with run ex t show ?thesis by (simp add: remove_op_def)
    next
      case (Inr y)
      then obtain arg b4 where cp: "bindE (copy_b b2 (graph_m s))
          (\<lambda>(copied_graph, b3). copy_b b3 copied_graph) = Inr (arg, b4)"
        by (cases y) simp
      from run ex t cp obtain r1 where r1: "remove_helper n b4 (graph_m s) arg k = Some r1"
        by (cases "remove_helper n b4 (graph_m s) arg k")
           (auto simp: remove_op_def simp del: remove_helper.simps)
      from remove_helper_le[OF le r1]
      have r1': "remove_helper m b4 (graph_m s) arg k = Some r1" .
      from run ex t cp r1 r1' show ?thesis
        by (simp add: remove_op_def del: remove_helper.simps)
    qed
  qed
qed

lemma reachable_finite_dom: "reachable Virus get_id s \<Longrightarrow> finite (dom (graph_m s))"
proof (induction rule: reachable.induct)
  case (r_construct stem)
  have "dom (graph_m (construct stem :: ('a, 'b) genealogy)) \<subseteq> {stem}"
    by (auto simp: construct_def split: if_splits)
  then show ?case by (rule finite_subset) simp
next
  case (r_create s b k parent_id r s')
  have "dom (graph_m s') \<subseteq> insert k (dom (graph_m s))"
    using r_create.hyps(2) by (cases r) (auto dest!: create_Inl create_Inr split: if_splits)
  with r_create.IH show ?case by (meson finite_insert finite_subset)
next
  case (r_create_multi s b k parent_ids r s')
  show ?case
  proof (cases r)
    case (Inl e)
    with r_create_multi show ?thesis by (auto dest!: create_multi_Inl)
  next
    case (Inr u)
    show ?thesis
    proof (cases "parent_ids = []")
      case True
      with create_multi_Inr[OF r_create_multi.hyps(2)[unfolded Inr]] r_create_multi.IH
      show ?thesis by simp
    next
      case False
      with create_multi_Inr[OF r_create_multi.hyps(2)[unfolded Inr]]
      have "dom (graph_m s') \<subseteq> insert k (dom (graph_m s))"
        by (auto split: if_splits)
      with r_create_multi.IH show ?thesis by (meson finite_insert finite_subset)
    qed
  qed
next
  case (r_connect s b child_id parent_id r s')
  from reachable_inv[OF r_connect.hyps(1)] have "virus_ok (graph_m s)"
    by (simp add: wf_genealogy_def)
  from connect_cases[OF this r_connect.hyps(2)]
  have "dom (graph_m s') \<subseteq> dom (graph_m s)"
    by (elim disjE exE conjE) (auto split: if_splits)
  with r_connect.IH show ?case by (rule rev_finite_subset)
next
  case (r_remove s n b k r s')
  show ?case
  proof (cases r)
    case (Inl e)
    with r_remove show ?thesis by (auto dest!: remove_op_Inl)
  next
    case (Inr u)
    from reachable_inv[OF r_remove.hyps(1)] have "virus_ok (graph_m s)" "finite_ok (graph_m s)"
      by (simp_all add: wf_genealogy_def)
    from remove_op_spec(4)[OF r_remove.hyps(2)[unfolded Inr] this]
    have "dom (graph_m s') \<subseteq> dom (graph_m s)" by (rule shrink_dom_subset)
    with r_remove.IH show ?thesis by (rule rev_finite_subset)
  qed
next
  case (r_lookup s b k q s')
  from lookup_state(1)[OF r_lookup.hyps(2)] r_lookup.IH show ?case by simp
qed

text \<open>
  In a reachable state \<^verbatim>\<open>remove\<close> ends, by a return or by an exception, whatever
  the parameter type does: the recursion of the helper is never deeper than twice the
  number of nodes, and more fuel does not change the outcome.
\<close>

lemma remove_ends:
  assumes "reachable Virus get_id s" and "2 * card (dom (graph_m s)) + 1 \<le> n"
  shows "\<exists>r. remove_op n b x s = Some r"
proof -
  have "remove_op (2 * card (dom (graph_m s)) + 1) b x s \<noteq> None"
    using reachable_inv[OF assms(1)] reachable_finite_dom[OF assms(1)]
    by (rule remove_op_terminates)
  then obtain r where "remove_op (2 * card (dom (graph_m s)) + 1) b x s = Some r" by blast
  with assms(2) have "remove_op n b x s = Some r" by (rule remove_op_le)
  then show ?thesis by blast
qed

section \<open>Which nodes the cascade removes\<close>

lemma cascade_trans:
  assumes c: "c \<in> cascade g k" and r: "r \<in> cascade g c"
  shows "r \<in> cascade g k"
  using r
proof (induction rule: cascade.induct)
  case base
  show ?case by (rule c)
next
  case (step q nq)
  show ?case using step.hyps(1,2) step.IH by (rule cascade.step)
qed

lemma cascade_shrink:
  assumes s: "shrink X g h" and X: "X \<subseteq> cascade g k" and r: "r \<in> cascade h k"
  shows "r \<in> cascade g k"
  using r
proof (induction rule: cascade.induct)
  case base
  show ?case by (rule cascade.base)
next
  case (step q nq')
  from shrink_node[OF s step.hyps(1)] obtain nq where
    nq: "g q = Some nq" "parents nq' \<subseteq> parents nq" "parents nq - X \<subseteq> parents nq'"
    by (auto simp: node_shrink_def)
  have ne: "parents nq \<noteq> {}" using nq(2) step.hyps(2) by blast
  have "p \<in> cascade g k" if "p \<in> parents nq" for p
  proof (cases "p \<in> X")
    case True
    with X show ?thesis by blast
  next
    case False
    with that nq(3) have "p \<in> parents nq'" by blast
    then show ?thesis by (rule step.IH)
  qed
  with nq(1) ne show ?case by (rule cascade.step)
qed

lemma children_loop_exact:
  assumes rec_spec: "\<And>b g c g' b'. rec b g c = Some (Inr (g', b')) \<Longrightarrow> finite_ok g \<Longrightarrow>
            g c \<noteq> None \<and> g' c = None \<and> shrink (dom g - dom g') g g' \<and> erased {} g g'
            \<and> (\<forall>r nr. g r = Some nr \<longrightarrow> g' r = None \<longrightarrow> r \<noteq> c \<longrightarrow> parents nr \<noteq> {})"
    and rec_exact: "\<And>b g c g' b'. rec b g c = Some (Inr (g', b')) \<Longrightarrow> finite_ok g
            \<Longrightarrow> listing_ok D g \<Longrightarrow> c \<notin> D \<Longrightarrow> (\<forall>y ny. g y = Some ny \<longrightarrow> y \<notin> children ny)
            \<Longrightarrow> (\<forall>d\<in>D. g d \<noteq> None \<longrightarrow> g' d \<noteq> None)
              \<and> (\<forall>r nr. g r = Some nr \<longrightarrow> g' r = None \<longrightarrow> r \<noteq> c
                    \<longrightarrow> parents nr \<subseteq> dom g - dom g')
              \<and> (\<forall>r. g r \<noteq> None \<longrightarrow> g' r = None \<longrightarrow> r \<in> cascade g c)"
    and vok: "virus_ok g0" and kD: "k \<in> D"
  shows "children_loop rec b g0 k cs h = Some (Inr (h', b')) \<Longrightarrow> finite_ok h
     \<Longrightarrow> listing_ok D h \<Longrightarrow> (\<forall>y ny. h y = Some ny \<longrightarrow> y \<notin> children ny)
     \<Longrightarrow> distinct cs \<Longrightarrow> (\<forall>c\<in>set cs. c \<notin> D)
     \<Longrightarrow> (\<forall>c\<in>set cs. \<forall>n. h c = Some n \<longrightarrow> k \<in> parents n)
     \<Longrightarrow> h k \<noteq> None
     \<Longrightarrow> (\<forall>d\<in>D. h d \<noteq> None \<longrightarrow> h' d \<noteq> None)
       \<and> (\<forall>r nr. h r = Some nr \<longrightarrow> h' r = None \<longrightarrow> parents nr \<subseteq> insert k (dom h - dom h'))
       \<and> (\<forall>r. h r \<noteq> None \<longrightarrow> h' r = None \<longrightarrow> r \<in> cascade h k)"
proof (induction cs arbitrary: b h)
  case Nil
  then have "h' = h" by simp
  then show ?case by auto
next
  case (Cons c cs)
  note run = Cons.prems(1) and fo = Cons.prems(2) and lo = Cons.prems(3)
    and ns = Cons.prems(4) and di = Cons.prems(5) and cD = Cons.prems(6)
    and kp = Cons.prems(7) and hk = Cons.prems(8)
  from run obtain nc b1 where at: "at_b b h c = Inr (nc, b1)"
    by (auto split: sum.splits)
  have hc: "h c = Some nc" using at by (rule at_b_Inr)
  have kc: "k \<in> parents nc" using kp hc by simp
  show ?case
  proof (cases "card (parents nc) = 1")
    case True
    with run at obtain arg b2 tmp b3 where
      st0: "copy_b b1 h = Inr (arg, b2)" "rec b2 arg c = Some (Inr (tmp, b3))"
          "children_loop rec b3 g0 k cs tmp = Some (Inr (h', b'))"
      by (auto split: sum.splits option.splits)
    have "arg = h" using st0(1) by (rule copy_b_Inr)
    with st0 have st: "rec b2 h c = Some (Inr (tmp, b3))"
          "children_loop rec b3 g0 k cs tmp = Some (Inr (h', b'))"
      by simp_all
    from rec_spec[OF st(1) fo] have
      r: "tmp c = None" "shrink (dom h - dom tmp) h tmp"
      by blast+
    have cnD: "c \<notin> D" using cD by simp
    from rec_exact[OF st(1) fo lo cnD ns] have
      ex: "\<forall>d\<in>D. h d \<noteq> None \<longrightarrow> tmp d \<noteq> None"
          "\<forall>r nr. h r = Some nr \<longrightarrow> tmp r = None \<longrightarrow> r \<noteq> c \<longrightarrow> parents nr \<subseteq> dom h - dom tmp"
          "\<forall>r. h r \<noteq> None \<longrightarrow> tmp r = None \<longrightarrow> r \<in> cascade h c"
      by blast+
    have tk: "tmp k \<noteq> None" using ex(1) kD hk by blast
    have fo': "finite_ok tmp" using fo r(2) by (rule finite_ok_shrink)
    have lo': "listing_ok D tmp" using lo r(2) by (rule listing_ok_shrink) blast
    have ns': "\<forall>y ny. tmp y = Some ny \<longrightarrow> y \<notin> children ny"
    proof (intro allI impI)
      fix y ny assume "tmp y = Some ny"
      from shrink_node[OF r(2) this] obtain n where "h y = Some n" "children ny \<subseteq> children n"
        by (auto simp: node_shrink_def)
      with ns show "y \<notin> children ny" by blast
    qed
    have kp': "\<forall>c2\<in>set cs. \<forall>n. tmp c2 = Some n \<longrightarrow> k \<in> parents n"
    proof (intro ballI allI impI)
      fix c2 n2 assume c2: "c2 \<in> set cs" and t: "tmp c2 = Some n2"
      from shrink_node[OF r(2) t] obtain n where
        n: "h c2 = Some n" "parents n - (dom h - dom tmp) \<subseteq> parents n2"
        by (auto simp: node_shrink_def)
      from kp c2 n(1) have "k \<in> parents n" by simp
      moreover have "k \<notin> dom h - dom tmp" using tk by auto
      ultimately show "k \<in> parents n2" using n(2) by blast
    qed
    have di': "distinct cs" and cD': "\<forall>c\<in>set cs. c \<notin> D" using di cD by simp_all
    from Cons.IH[OF st(2) fo' lo' ns' di' cD' kp' tk] have
      ih: "\<forall>d\<in>D. tmp d \<noteq> None \<longrightarrow> h' d \<noteq> None"
          "\<forall>r nr. tmp r = Some nr \<longrightarrow> h' r = None \<longrightarrow> parents nr \<subseteq> insert k (dom tmp - dom h')"
          "\<forall>r. tmp r \<noteq> None \<longrightarrow> h' r = None \<longrightarrow> r \<in> cascade tmp k"
      by blast+
    have d1: "dom tmp \<subseteq> dom h" using r(2) by (rule shrink_dom_subset)
    have h'tmp: "h' q = Some n \<Longrightarrow> tmp q \<noteq> None" for q n
    proof -
      assume a: "h' q = Some n"
      show "tmp q \<noteq> None"
      proof
        assume "tmp q = None"
        have "shrink ({k} \<union> (dom tmp - dom h')) tmp h' \<and> erased {k} tmp h'
           \<and> (\<forall>c\<in>set cs. \<forall>n. h' c = Some n \<longrightarrow> k \<notin> parents n)
           \<and> (\<forall>r nr. tmp r = Some nr \<longrightarrow> h' r = None \<longrightarrow> parents nr \<noteq> {})"
          using rec_spec vok st(2) fo' by (rule children_loop_spec)
        then have "shrink ({k} \<union> (dom tmp - dom h')) tmp h'" by blast
        from shrink_node[OF this a] \<open>tmp q = None\<close> show False by simp
      qed
    qed
    have pk: "parents nc = {k}"
      using \<open>card (parents nc) = 1\<close> kc by (auto simp: card_1_singleton_iff)
    have pne: "parents nc \<noteq> {}" using pk by simp
    have pin: "p \<in> cascade h k" if "p \<in> parents nc" for p
      using that pk by (simp add: cascade.base)
    have ck: "c \<in> cascade h k"
      using hc pne pin by (rule cascade.step)
    have gone1: "r \<in> cascade h k" if "h r \<noteq> None" "tmp r = None" for r
    proof -
      from ex(3) that have "r \<in> cascade h c" by blast
      with ck show ?thesis by (rule cascade_trans)
    qed
    have X1: "dom h - dom tmp \<subseteq> cascade h k" using gone1 by blast
    have p1: "\<forall>d\<in>D. h d \<noteq> None \<longrightarrow> h' d \<noteq> None" using ex(1) ih(1) by blast
    have p2: "\<forall>r nr. h r = Some nr \<longrightarrow> h' r = None \<longrightarrow> parents nr \<subseteq> insert k (dom h - dom h')"
    proof (intro allI impI)
      fix r nr assume a: "h r = Some nr" "h' r = None"
      have dsub: "dom h - dom tmp \<subseteq> dom h - dom h'" using h'tmp by blast
      show "parents nr \<subseteq> insert k (dom h - dom h')"
      proof (cases "tmp r")
        case None
        show ?thesis
        proof (cases "r = c")
          case True
          with a hc have "nr = nc" by simp
          with pk show ?thesis by simp
        next
          case False
          with ex(2) a(1) None have "parents nr \<subseteq> dom h - dom tmp" by blast
          with dsub show ?thesis by blast
        qed
      next
        case (Some nr1)
        with ih(2) a(2) have "parents nr1 \<subseteq> insert k (dom tmp - dom h')" by blast
        moreover from shrink_node[OF r(2) Some] a(1)
        have "parents nr - (dom h - dom tmp) \<subseteq> parents nr1"
          by (auto simp: node_shrink_def)
        ultimately show ?thesis using dsub d1 by blast
      qed
    qed
    have p3: "\<forall>r. h r \<noteq> None \<longrightarrow> h' r = None \<longrightarrow> r \<in> cascade h k"
    proof (intro allI impI)
      fix r assume a: "h r \<noteq> None" "h' r = None"
      show "r \<in> cascade h k"
      proof (cases "tmp r = None")
        case True
        with a(1) show ?thesis by (rule gone1)
      next
        case False
        with ih(3) a(2) have "r \<in> cascade tmp k" by blast
        with r(2) X1 show ?thesis by (rule cascade_shrink)
      qed
    qed
    from p1 p2 p3 show ?thesis by blast
  next
    case False
    with run at obtain nc' b2 n0 b3 ps b4 where
      st: "at_b b1 h c = Inr (nc', b2)" "at_b b2 g0 k = Inr (n0, b3)"
          "set_erase_b b3 (virus n0) (parents nc') = Inr (ps, b4)"
          "children_loop rec b4 g0 k cs (h(c \<mapsto> nc'\<lparr>parents := ps\<rparr>)) = Some (Inr (h', b'))"
      by (auto simp: bindE_eq_Inr split: sum.splits)
    have nc': "nc' = nc" using at_b_Inr[OF st(1)] hc by simp
    have "virus n0 = k" using at_b_Inr[OF st(2)] vok by (simp add: virus_ok_def)
    with st(3) nc' have ps: "ps = parents nc - {k}" by (auto dest: set_erase_b_Inr)
    define h1 where "h1 = h(c \<mapsto> nc\<lparr>parents := parents nc - {k}\<rparr>)"
    have loop: "children_loop rec b4 g0 k cs h1 = Some (Inr (h', b'))"
      using st(4) nc' ps by (simp add: h1_def)
    have s1: "shrink {k} h h1"
      unfolding h1_def using hc False by (rule shrink_upd_parents)
    have dom1: "dom h1 = dom h" using hc by (auto simp: h1_def)
    have fo': "finite_ok h1" using fo s1 by (rule finite_ok_shrink)
    have lo': "listing_ok D h1" using lo s1 by (rule listing_ok_shrink) (use kD in blast)
    have ns': "\<forall>y ny. h1 y = Some ny \<longrightarrow> y \<notin> children ny"
      using ns hc by (auto simp: h1_def)
    have cnotin: "c \<notin> set cs" using di by simp
    have kp': "\<forall>c2\<in>set cs. \<forall>n. h1 c2 = Some n \<longrightarrow> k \<in> parents n"
      using kp cnotin by (auto simp: h1_def)
    have hk1: "h1 k \<noteq> None" using hk dom1 by blast
    have di': "distinct cs" and cD': "\<forall>c\<in>set cs. c \<notin> D" using di cD by simp_all
    from Cons.IH[OF loop fo' lo' ns' di' cD' kp' hk1] have
      ih: "\<forall>d\<in>D. h1 d \<noteq> None \<longrightarrow> h' d \<noteq> None"
          "\<forall>r nr. h1 r = Some nr \<longrightarrow> h' r = None \<longrightarrow> parents nr \<subseteq> insert k (dom h1 - dom h')"
          "\<forall>r. h1 r \<noteq> None \<longrightarrow> h' r = None \<longrightarrow> r \<in> cascade h1 k"
      by blast+
    have p1: "\<forall>d\<in>D. h d \<noteq> None \<longrightarrow> h' d \<noteq> None"
      using ih(1) dom1 by blast
    have p2: "\<forall>r nr. h r = Some nr \<longrightarrow> h' r = None \<longrightarrow> parents nr \<subseteq> insert k (dom h - dom h')"
    proof (intro allI impI)
      fix r nr assume a: "h r = Some nr" "h' r = None"
      have "\<exists>nr1. h1 r = Some nr1 \<and> parents nr \<subseteq> insert k (parents nr1)"
        using a(1) hc by (cases "r = c") (auto simp: h1_def)
      then obtain nr1 where n1: "h1 r = Some nr1" "parents nr \<subseteq> insert k (parents nr1)"
        by blast
      with ih(2) a(2) have "parents nr1 \<subseteq> insert k (dom h1 - dom h')" by blast
      with n1(2) show "parents nr \<subseteq> insert k (dom h - dom h')" by (auto simp: dom1)
    qed
    have Xk: "{k} \<subseteq> cascade h k" by (simp add: cascade.base)
    have p3: "\<forall>r. h r \<noteq> None \<longrightarrow> h' r = None \<longrightarrow> r \<in> cascade h k"
    proof (intro allI impI)
      fix r assume a: "h r \<noteq> None" "h' r = None"
      then have "h1 r \<noteq> None" using dom1 by blast
      with ih(3) a(2) have "r \<in> cascade h1 k" by blast
      with s1 Xk show "r \<in> cascade h k" by (rule cascade_shrink)
    qed
    from p1 p2 p3 show ?thesis by blast
  qed
qed

lemma remove_helper_exact:
  assumes vok: "virus_ok g0"
  shows "remove_helper n b g0 cg k = Some (Inr (cg', b')) \<Longrightarrow> finite_ok cg
     \<Longrightarrow> listing_ok D cg \<Longrightarrow> k \<notin> D \<Longrightarrow> (\<forall>y ny. cg y = Some ny \<longrightarrow> y \<notin> children ny)
     \<Longrightarrow> (\<forall>d\<in>D. cg d \<noteq> None \<longrightarrow> cg' d \<noteq> None)
       \<and> (\<forall>r nr. cg r = Some nr \<longrightarrow> cg' r = None \<longrightarrow> r \<noteq> k
             \<longrightarrow> parents nr \<subseteq> dom cg - dom cg')
       \<and> (\<forall>r. cg r \<noteq> None \<longrightarrow> cg' r = None \<longrightarrow> r \<in> cascade cg k)"
proof (induction n arbitrary: b cg k cg' b' D)
  case 0
  then show ?case by simp
next
  case (Suc n)
  let ?rec = "\<lambda>b' g c. remove_helper n b' g0 g c"
  note fo = Suc.prems(2) and lo = Suc.prems(3) and kD = Suc.prems(4) and ns = Suc.prems(5)
  from Suc.prems(1) obtain nd b1 ccopy b2 nd' b3 cg1 b4 cg2 b5 where
    st: "at_b b cg k = Inr (nd, b1)" "copy_b b1 (children nd) = Inr (ccopy, b2)"
        "at_b b2 cg k = Inr (nd', b3)"
        "detach_parents b3 g0 k (sorted_list_of_set (parents nd')) cg = Inr (cg1, b4)"
        "children_loop ?rec b4 g0 k (sorted_list_of_set ccopy) cg1 = Some (Inr (cg2, b5))"
        "bindE (tick b5) (\<lambda>b6. Inr (cg2(k := None), b6)) = Inr (cg', b')"
    by (auto simp: bindE_eq_Inr split: sum.splits option.splits)
  have k: "cg k = Some nd" using st(1) by (rule at_b_Inr)
  have cc: "ccopy = children nd" using st(2) by (rule copy_b_Inr)
  have nd': "nd' = nd" using at_b_Inr[OF st(3)] k by simp
  have fin: "finite (children nd)" "finite (parents nd)"
    using fo k by (auto simp: finite_ok_def)
  have cg': "cg' = cg2(k := None)" using st(6) by (auto simp: bindE_eq_Inr)
  from detach_parents_Inr[OF st(4) vok] fin nd' have
    cg1: "cg1 = (\<lambda>q. if q \<in> parents nd
                     then map_option (\<lambda>n. n\<lparr>children := children n - {k}\<rparr>) (cg q)
                     else cg q)"
    by simp
  have s1: "shrink {k} cg cg1" and dom1: "dom cg1 = dom cg"
    using detach_parents_shrink[OF st(4) vok] by blast+
  have fin1: "finite_ok cg1" using fo s1 by (rule finite_ok_shrink)
  have kc: "children nd \<inter> D = {}"
    using lo k kD unfolding listing_ok_def by blast
  have lo1: "listing_ok (insert k D) cg1"
    using lo k kc cg1 by (rule listing_ok_detached(1))
  have ns1: "\<forall>y ny. cg1 y = Some ny \<longrightarrow> y \<notin> children ny"
    using ns unfolding cg1 by (auto split: if_splits)
  have par1: "cg1 r = Some n1 \<Longrightarrow> \<exists>n. cg r = Some n \<and> parents n = parents n1" for r n1
    unfolding cg1 by (auto split: if_splits)
  have di: "distinct (sorted_list_of_set ccopy)" by simp
  have cD: "\<forall>c\<in>set (sorted_list_of_set ccopy). c \<notin> insert k D"
    using cc fin kc ns k by auto
  have kp: "\<forall>c\<in>set (sorted_list_of_set ccopy). \<forall>n. cg1 c = Some n \<longrightarrow> k \<in> parents n"
  proof (intro ballI allI impI)
    fix c n assume c: "c \<in> set (sorted_list_of_set ccopy)" and n: "cg1 c = Some n"
    from c cc fin have "c \<in> children nd" by simp
    moreover from par1[OF n] obtain n0 where n0: "cg c = Some n0" "parents n0 = parents n"
      by blast
    ultimately show "k \<in> parents n"
      using lo k kD unfolding listing_ok_def by blast
  qed
  have k1: "cg1 k \<noteq> None" using k dom1 by blast
  have kin: "k \<in> insert k D" by simp
  have rec_spec: "\<And>b g c g' b'. remove_helper n b g0 g c = Some (Inr (g', b')) \<Longrightarrow> finite_ok g \<Longrightarrow>
            g c \<noteq> None \<and> g' c = None \<and> shrink (dom g - dom g') g g' \<and> erased {} g g'
            \<and> (\<forall>r nr. g r = Some nr \<longrightarrow> g' r = None \<longrightarrow> r \<noteq> c \<longrightarrow> parents nr \<noteq> {})"
    using vok by (rule remove_helper_spec)
  have rec_exact: "\<And>b g c g' b'. remove_helper n b g0 g c = Some (Inr (g', b')) \<Longrightarrow> finite_ok g
            \<Longrightarrow> listing_ok (insert k D) g \<Longrightarrow> c \<notin> insert k D
            \<Longrightarrow> (\<forall>y ny. g y = Some ny \<longrightarrow> y \<notin> children ny)
            \<Longrightarrow> (\<forall>d\<in>insert k D. g d \<noteq> None \<longrightarrow> g' d \<noteq> None)
              \<and> (\<forall>r nr. g r = Some nr \<longrightarrow> g' r = None \<longrightarrow> r \<noteq> c
                    \<longrightarrow> parents nr \<subseteq> dom g - dom g')
              \<and> (\<forall>r. g r \<noteq> None \<longrightarrow> g' r = None \<longrightarrow> r \<in> cascade g c)"
    by (rule Suc.IH)
  have l: "(\<forall>d\<in>insert k D. cg1 d \<noteq> None \<longrightarrow> cg2 d \<noteq> None)
       \<and> (\<forall>r nr. cg1 r = Some nr \<longrightarrow> cg2 r = None
             \<longrightarrow> parents nr \<subseteq> insert k (dom cg1 - dom cg2))
       \<and> (\<forall>r. cg1 r \<noteq> None \<longrightarrow> cg2 r = None \<longrightarrow> r \<in> cascade cg1 k)"
    using rec_spec rec_exact vok kin st(5) fin1 lo1 ns1 di cD kp k1
    by (rule children_loop_exact)
  have p1: "\<forall>d\<in>D. cg d \<noteq> None \<longrightarrow> cg' d \<noteq> None"
  proof (intro ballI impI)
    fix d assume d: "d \<in> D" "cg d \<noteq> None"
    then have "cg1 d \<noteq> None" using dom1 by blast
    with l d(1) have "cg2 d \<noteq> None" by blast
    moreover have "d \<noteq> k" using d(1) kD by blast
    ultimately show "cg' d \<noteq> None" by (simp add: cg')
  qed
  have p2: "\<forall>r nr. cg r = Some nr \<longrightarrow> cg' r = None \<longrightarrow> r \<noteq> k
             \<longrightarrow> parents nr \<subseteq> dom cg - dom cg'"
  proof (intro allI impI)
    fix r nr assume a: "cg r = Some nr" "cg' r = None" "r \<noteq> k"
    from a(2,3) have r2: "cg2 r = None" by (simp add: cg')
    from a(1) dom1 obtain n1 where n1: "cg1 r = Some n1" by blast
    from par1[OF n1] a(1) have "parents nr = parents n1" by simp
    moreover from l n1 r2 have "parents n1 \<subseteq> insert k (dom cg1 - dom cg2)" by blast
    ultimately show "parents nr \<subseteq> dom cg - dom cg'"
      using k dom1 by (auto simp: cg')
  qed
  have Xk: "{k} \<subseteq> cascade cg k" by (simp add: cascade.base)
  have p3: "\<forall>r. cg r \<noteq> None \<longrightarrow> cg' r = None \<longrightarrow> r \<in> cascade cg k"
  proof (intro allI impI)
    fix r assume a: "cg r \<noteq> None" "cg' r = None"
    show "r \<in> cascade cg k"
    proof (cases "r = k")
      case True
      then show ?thesis by (simp add: cascade.base)
    next
      case False
      with a(2) have "cg2 r = None" by (simp add: cg')
      moreover have "cg1 r \<noteq> None" using a(1) dom1 by blast
      ultimately have "r \<in> cascade cg1 k" using l by blast
      with s1 Xk show ?thesis by (rule cascade_shrink)
    qed
  qed
  from p1 p2 p3 show ?case by blast
qed

section \<open>The effect of a successful \<^verbatim>\<open>remove\<close>\<close>

lemma remove_op_effect:
  assumes i: "wf_genealogy s" and run: "remove_op n b x s = Some (Inr u, s')"
  shows "graph_m s x \<noteq> None" and "x \<noteq> stem_id s" and "graph_m s' x = None"
    and "\<forall>q nq. graph_m s' q = Some nq \<longrightarrow> x \<notin> parents nq \<and> x \<notin> children nq"
    and "\<forall>q\<in>cascade (graph_m s) x. graph_m s' q = None"
    and "\<forall>q nq'. graph_m s' q = Some nq' \<longrightarrow>
           (\<exists>nq. graph_m s q = Some nq \<and> virus nq' = virus nq
              \<and> parents nq' = parents nq - (dom (graph_m s) - dom (graph_m s'))
              \<and> children nq' = children nq - (dom (graph_m s) - dom (graph_m s')))"
    and "nonstem_parents s'"
proof -
  from i have vok: "virus_ok (graph_m s)" and fok: "finite_ok (graph_m s)"
    by (simp_all add: wf_genealogy_def)
  have i': "wf_genealogy s'" using i run by (rule inv_remove)
  then have sym': "symmetric (graph_m s')" and nsp': "nonstem_parents s'"
    by (simp_all add: wf_genealogy_def)
  note sp = remove_op_spec[OF run vok fok]
  let ?R = "dom (graph_m s) - dom (graph_m s')"
  have closed: "parents nq \<subseteq> dom (graph_m s') \<and> children nq \<subseteq> dom (graph_m s')"
    if "graph_m s' q = Some nq" for q nq
    using symmetric_parent[OF sym' that] symmetric_child[OF sym' that] by blast
  show "graph_m s x \<noteq> None" "x \<noteq> stem_id s" "graph_m s' x = None"
    by (rule sp(1), rule sp(2), rule sp(3))
  show "\<forall>q nq. graph_m s' q = Some nq \<longrightarrow> x \<notin> parents nq \<and> x \<notin> children nq"
    using closed sp(3) by blast
  show "nonstem_parents s'" by (rule nsp')
  show "\<forall>q nq'. graph_m s' q = Some nq' \<longrightarrow>
           (\<exists>nq. graph_m s q = Some nq \<and> virus nq' = virus nq
              \<and> parents nq' = parents nq - ?R \<and> children nq' = children nq - ?R)"
  proof (intro allI impI)
    fix q nq' assume q: "graph_m s' q = Some nq'"
    from shrink_node[OF sp(4) q] obtain nq where
      nq: "graph_m s q = Some nq" "node_shrink ?R nq nq'"
      by blast
    from closed[OF q] have "parents nq' \<inter> ?R = {}" "children nq' \<inter> ?R = {}" by blast+
    with nq(2) have "virus nq' = virus nq" "parents nq' = parents nq - ?R"
      "children nq' = children nq - ?R"
      unfolding node_shrink_def by blast+
    with nq(1) show "\<exists>nq. graph_m s q = Some nq \<and> virus nq' = virus nq
              \<and> parents nq' = parents nq - ?R \<and> children nq' = children nq - ?R"
      by blast
  qed
  show "\<forall>q\<in>cascade (graph_m s) x. graph_m s' q = None"
  proof
    fix q assume "q \<in> cascade (graph_m s) x"
    then show "graph_m s' q = None"
    proof (induction rule: cascade.induct)
      case base
      show ?case by (rule sp(3))
    next
      case (step q nq)
      show ?case
      proof (rule ccontr)
        assume "graph_m s' q \<noteq> None"
        then obtain nq' where q': "graph_m s' q = Some nq'" by blast
        from shrink_node[OF sp(4) q'] step.hyps(1) have ns: "node_shrink ?R nq nq'" by simp
        with step.hyps(2) obtain p where p: "p \<in> parents nq'" "p \<in> parents nq"
          unfolding node_shrink_def by blast
        from closed[OF q'] p(1) have "graph_m s' p \<noteq> None" by blast
        with step.IH[OF p(2)] show False by simp
      qed
    qed
  qed
qed

lemma remove_op_exact:
  assumes i: "wf_genealogy s" and nself: "no_self_parent (graph_m s)"
    and run: "remove_op n b x s = Some (Inr u, s')"
  shows "dom (graph_m s') = dom (graph_m s) - cascade (graph_m s) x"
    and "\<forall>q nq. graph_m s q = Some nq \<longrightarrow> q \<noteq> x \<longrightarrow>
           (graph_m s' q = None
              \<longleftrightarrow> parents nq \<noteq> {} \<and> (\<forall>p\<in>parents nq. graph_m s' p = None))"
proof -
  from i have vok: "virus_ok (graph_m s)" and fok: "finite_ok (graph_m s)"
    and sym: "symmetric (graph_m s)"
    by (simp_all add: wf_genealogy_def)
  note sp = remove_op_spec[OF run vok fok]
  note ef = remove_op_effect[OF i run]
  from remove_op_Inr[OF run] obtain b1 b2 where
    h: "remove_helper n b1 (graph_m s) (graph_m s) x = Some (Inr (graph_m s', b2))"
    by blast
  have lo: "listing_ok {} (graph_m s)" using sym by (rule listing_ok_symmetric)
  have nc: "\<forall>y ny. graph_m s y = Some ny \<longrightarrow> y \<notin> children ny"
  proof (intro allI impI)
    fix y ny assume y: "graph_m s y = Some ny"
    show "y \<notin> children ny"
    proof
      assume "y \<in> children ny"
      from symmetric_child[OF sym y this] y have "y \<in> parents ny" by simp
      with nself y show False unfolding no_self_parent_def by blast
    qed
  qed
  have xe: "x \<notin> {}" by simp
  from remove_helper_exact[OF vok h fok lo xe nc] have
    ex: "\<forall>r nr. graph_m s r = Some nr \<longrightarrow> graph_m s' r = None \<longrightarrow> r \<noteq> x
             \<longrightarrow> parents nr \<subseteq> dom (graph_m s) - dom (graph_m s')"
        "\<forall>r. graph_m s r \<noteq> None \<longrightarrow> graph_m s' r = None \<longrightarrow> r \<in> cascade (graph_m s) x"
    by blast+
  have sub: "dom (graph_m s') \<subseteq> dom (graph_m s)" using sp(4) by (rule shrink_dom_subset)
  show "dom (graph_m s') = dom (graph_m s) - cascade (graph_m s) x"
  proof (intro equalityI subsetI)
    fix q assume q: "q \<in> dom (graph_m s')"
    with ef(5) have "q \<notin> cascade (graph_m s) x" by auto
    with q sub show "q \<in> dom (graph_m s) - cascade (graph_m s) x" by auto
  next
    fix q assume q: "q \<in> dom (graph_m s) - cascade (graph_m s) x"
    with ex(2) have "graph_m s' q \<noteq> None" by auto
    then show "q \<in> dom (graph_m s')" by auto
  qed
  show "\<forall>q nq. graph_m s q = Some nq \<longrightarrow> q \<noteq> x \<longrightarrow>
           (graph_m s' q = None
              \<longleftrightarrow> parents nq \<noteq> {} \<and> (\<forall>p\<in>parents nq. graph_m s' p = None))"
  proof (intro allI impI iffI)
    fix q nq assume q: "graph_m s q = Some nq" "q \<noteq> x" and gone: "graph_m s' q = None"
    from sp(6) q gone have "parents nq \<noteq> {}" by blast
    moreover from ex(1) q gone have "parents nq \<subseteq> dom (graph_m s) - dom (graph_m s')"
      by blast
    ultimately show "parents nq \<noteq> {} \<and> (\<forall>p\<in>parents nq. graph_m s' p = None)" by blast
  next
    fix q nq assume q: "graph_m s q = Some nq" "q \<noteq> x"
      and a: "parents nq \<noteq> {} \<and> (\<forall>p\<in>parents nq. graph_m s' p = None)"
    have pin: "p \<in> cascade (graph_m s) x" if "p \<in> parents nq" for p
    proof -
      from symmetric_parent[OF sym q(1) that] have "graph_m s p \<noteq> None" by blast
      moreover from a that have "graph_m s' p = None" by blast
      ultimately show ?thesis using ex(2) by blast
    qed
    have pne: "parents nq \<noteq> {}" using a by blast
    have "q \<in> cascade (graph_m s) x" using q(1) pne pin by (rule cascade.step)
    with ef(5) show "graph_m s' q = None" by blast
  qed
qed

lemma remove_op_graph:
  assumes i: "wf_genealogy s" and nself: "no_self_parent (graph_m s)"
    and run: "remove_op n b x s = Some (Inr u, s')"
  shows "s' = s\<lparr>graph_m := (\<lambda>q. if q \<in> cascade (graph_m s) x then None
            else map_option (\<lambda>nq. nq\<lparr>parents := parents nq - cascade (graph_m s) x,
                                     children := children nq - cascade (graph_m s) x\<rparr>)
                   (graph_m s q))\<rparr>"
proof -
  let ?C = "cascade (graph_m s) x"
  let ?R = "dom (graph_m s) - dom (graph_m s')"
  from i have sym: "symmetric (graph_m s)" by (simp add: wf_genealogy_def)
  note ef = remove_op_effect[OF i run]
  note ex = remove_op_exact[OF i nself run]
  have g: "graph_m s' q = (if q \<in> ?C then None
            else map_option (\<lambda>nq. nq\<lparr>parents := parents nq - ?C, children := children nq - ?C\<rparr>)
                   (graph_m s q))" for q
  proof (cases "q \<in> ?C")
    case True
    with ef(5) show ?thesis by simp
  next
    case False
    show ?thesis
    proof (cases "graph_m s q")
      case None
      with ex(1) have "graph_m s' q = None" by blast
      with None False show ?thesis by simp
    next
      case (Some nq)
      with False ex(1) obtain nq' where q': "graph_m s' q = Some nq'" by blast
      from ef(6) q' obtain n0 where n0: "graph_m s q = Some n0" "virus nq' = virus n0"
        "parents nq' = parents n0 - ?R" "children nq' = children n0 - ?R"
        by blast
      from n0(1) Some have "n0 = nq" by simp
      with n0 have e: "virus nq' = virus nq" "parents nq' = parents nq - ?R"
        "children nq' = children nq - ?R"
        by simp_all
      have "parents nq \<subseteq> dom (graph_m s)" "children nq \<subseteq> dom (graph_m s)"
        using symmetric_parent[OF sym Some] symmetric_child[OF sym Some] by blast+
      with ex(1) have "parents nq - ?R = parents nq - ?C" "children nq - ?R = children nq - ?C"
        by blast+
      with e have "nq' = nq\<lparr>parents := parents nq - ?C, children := children nq - ?C\<rparr>"
        by simp
      with q' Some False show ?thesis by simp
    qed
  qed
  from remove_op_Inr[OF run] have "s' = s\<lparr>graph_m := graph_m s'\<rparr>" by blast
  moreover have "graph_m s' = (\<lambda>q. if q \<in> ?C then None
            else map_option (\<lambda>nq. nq\<lparr>parents := parents nq - ?C, children := children nq - ?C\<rparr>)
                   (graph_m s q))"
    by (rule ext) (rule g)
  ultimately show ?thesis by simp
qed

section \<open>Further example genealogies\<close>

lemma ex_shared_eq:
  "ex_shared = \<lparr>graph_m = Map.empty(0 \<mapsto> \<lparr>children = {1, 2}, parents = {}, virus = 0\<rparr>,
                                     1 \<mapsto> \<lparr>children = {2}, parents = {0}, virus = 1\<rparr>,
                                     2 \<mapsto> \<lparr>children = {}, parents = {0, 1}, virus = 2\<rparr>),
               virus_set = Map.empty, stem_id = 0\<rparr>"
  by (auto simp: ex_shared_def ex_chain_eq create_multi_def intro!: ext)

lemma ex_shared_remove:
  "remove_op (Suc 0) None 1 ex_shared
     = Some (Inr (), \<lparr>graph_m = Map.empty(0 \<mapsto> \<lparr>children = {2}, parents = {}, virus = 0\<rparr>,
                                          2 \<mapsto> \<lparr>children = {}, parents = {0}, virus = 2\<rparr>),
                      virus_set = Map.empty, stem_id = 0\<rparr>)"
  by (auto simp: ex_shared_eq remove_op_def insert_Diff_if simp del: One_nat_def intro!: ext)

lemma ex_shared_removed_eq:
  "ex_shared_removed
     = \<lparr>graph_m = Map.empty(0 \<mapsto> \<lparr>children = {2}, parents = {}, virus = 0\<rparr>,
                           2 \<mapsto> \<lparr>children = {}, parents = {0}, virus = 2\<rparr>),
        virus_set = Map.empty, stem_id = 0\<rparr>"
  by (simp add: ex_shared_removed_def ex_shared_remove del: One_nat_def)

lemma guarded_ex_shared: "reachable_guarded id id ex_shared"
  unfolding ex_shared_def
  by (rule g_create_multi[OF guarded_ex_chain surjective_pairing])

lemma ex_loop_built_eq:
  "ex_loop_built
     = \<lparr>graph_m = Map.empty(0 \<mapsto> \<lparr>children = {1, 3}, parents = {}, virus = 0\<rparr>,
                           1 \<mapsto> \<lparr>children = {2}, parents = {0}, virus = 1\<rparr>,
                           2 \<mapsto> \<lparr>children = {2, 3}, parents = {1, 2}, virus = 2\<rparr>,
                           3 \<mapsto> \<lparr>children = {}, parents = {0, 2}, virus = 3\<rparr>),
        virus_set = Map.empty, stem_id = 0\<rparr>"
  by (auto simp: ex_loop_built_def ex_chain_eq create_def create_try_def connect_def
        connect_graph_def Let_def create_multi_def intro!: ext)

lemma ex_loop_built_remove:
  "remove_op (Suc (Suc 0)) None 1 ex_loop_built
     = Some (Inr (), \<lparr>graph_m = Map.empty(0 \<mapsto> \<lparr>children = {3}, parents = {}, virus = 0\<rparr>,
                           2 \<mapsto> \<lparr>children = {2, 3}, parents = {2}, virus = 2\<rparr>,
                           3 \<mapsto> \<lparr>children = {}, parents = {0, 2}, virus = 3\<rparr>),
                      virus_set = Map.empty, stem_id = 0\<rparr>)"
  by (auto simp: ex_loop_built_eq remove_op_def insert_Diff_if simp del: One_nat_def intro!: ext)

lemma ex_loop_eq:
  "ex_loop = \<lparr>graph_m = Map.empty(0 \<mapsto> \<lparr>children = {3}, parents = {}, virus = 0\<rparr>,
                           2 \<mapsto> \<lparr>children = {2, 3}, parents = {2}, virus = 2\<rparr>,
                           3 \<mapsto> \<lparr>children = {}, parents = {0, 2}, virus = 3\<rparr>),
        virus_set = Map.empty, stem_id = 0\<rparr>"
  by (simp add: ex_loop_def ex_loop_built_remove del: One_nat_def)

lemma ex_loop_remove:
  "remove_op (Suc (Suc 0)) None 2 ex_loop
     = Some (Inr (), \<lparr>graph_m = Map.empty(0 \<mapsto> \<lparr>children = {}, parents = {}, virus = 0\<rparr>),
                      virus_set = Map.empty, stem_id = 0\<rparr>)"
  by (auto simp: ex_loop_eq remove_op_def sorted_list_two insert_Diff_if
        simp del: One_nat_def intro!: ext)

lemma ex_loop_removed_eq:
  "ex_loop_removed
     = \<lparr>graph_m = Map.empty(0 \<mapsto> \<lparr>children = {}, parents = {}, virus = 0\<rparr>),
        virus_set = Map.empty, stem_id = 0\<rparr>"
  by (simp add: ex_loop_removed_def ex_loop_remove del: One_nat_def)

lemma reachable_ex_loop_built: "reachable id id ex_loop_built"
  unfolding ex_loop_built_def
  by (rule r_create_multi[OF r_connect[OF r_create[OF guarded_reachable[OF guarded_ex_chain]
        surjective_pairing] surjective_pairing] surjective_pairing])

lemma reachable_ex_loop: "reachable id id ex_loop"
proof -
  have "remove_op (Suc (Suc 0)) None 1 ex_loop_built = Some (Inr (), ex_loop)"
    by (simp add: ex_loop_built_remove ex_loop_eq del: One_nat_def)
  with reachable_ex_loop_built show ?thesis by (rule r_remove)
qed

section \<open>Cascading removal\<close>

text \<open>
  C3: in every reachable state, when \<^verbatim>\<open>remove(x)\<close> returns, \<open>x\<close> was in the graph and
  was not the stem, \<^verbatim>\<open>exists(x)\<close> is false afterwards, no remaining node has \<open>x\<close> among
  its parents or children, every node whose only parent was \<open>x\<close> is gone, and so is
  every node of the cascade of \<open>x\<close> (the nodes all of whose parents go); a node
  without parents other than \<open>x\<close> stays; each remaining node has the parents and
  children it had, less the removed nodes, and each remaining node other than the
  stem still has a parent. If moreover no node of the graph is its own parent, the
  removed nodes are exactly the cascade of \<open>x\<close>: a node other than \<open>x\<close> is removed if
  and only if it had parents and all of them are removed, so that a child of \<open>x\<close>
  with a parent that remains itself remains, with \<open>x\<close> erased from its parents.
\<close>

theorem remove_cascade:
  assumes reach: "reachable Virus get_id s"
    and run: "remove_op n b x s = Some (Inr (), s')"
  shows "graph_m s x \<noteq> None \<and> x \<noteq> stem_id s \<and> exists None s' x = Inr False
     \<and> (\<forall>q nq. graph_m s' q = Some nq \<longrightarrow> x \<notin> parents nq \<and> x \<notin> children nq)
     \<and> (\<forall>c nc. graph_m s c = Some nc \<longrightarrow> parents nc = {x} \<longrightarrow> graph_m s' c = None)
     \<and> (\<forall>q\<in>cascade (graph_m s) x. graph_m s' q = None)
     \<and> (\<forall>q nq. graph_m s q = Some nq \<longrightarrow> q \<noteq> x \<longrightarrow> parents nq = {}
           \<longrightarrow> graph_m s' q \<noteq> None)
     \<and> (\<forall>q nq'. graph_m s' q = Some nq' \<longrightarrow>
           (\<exists>nq. graph_m s q = Some nq
              \<and> parents nq' = parents nq - (dom (graph_m s) - dom (graph_m s'))
              \<and> children nq' = children nq - (dom (graph_m s) - dom (graph_m s'))))
     \<and> nonstem_parents s'
     \<and> (no_self_parent (graph_m s) \<longrightarrow>
          dom (graph_m s') = dom (graph_m s) - cascade (graph_m s) x
          \<and> (\<forall>q nq. graph_m s q = Some nq \<longrightarrow> q \<noteq> x \<longrightarrow>
                (graph_m s' q = None
                   \<longleftrightarrow> parents nq \<noteq> {} \<and> (\<forall>p\<in>parents nq. graph_m s' p = None)))
          \<and> (\<forall>c nc p. graph_m s c = Some nc \<longrightarrow> x \<in> parents nc \<longrightarrow> p \<in> parents nc
                \<longrightarrow> graph_m s' p \<noteq> None \<longrightarrow>
                (\<exists>nc'. graph_m s' c = Some nc' \<and> x \<notin> parents nc' \<and> p \<in> parents nc'
                   \<and> parents nc' = parents nc - (dom (graph_m s) - dom (graph_m s'))
                   \<and> children nc' = children nc - (dom (graph_m s) - dom (graph_m s')))))"
proof -
  have i: "wf_genealogy s" using reach by (rule reachable_inv)
  then have vok: "virus_ok (graph_m s)" and fok: "finite_ok (graph_m s)"
    by (simp_all add: wf_genealogy_def)
  note sp = remove_op_spec[OF run vok fok]
  note ef = remove_op_effect[OF i run]
  let ?R = "dom (graph_m s) - dom (graph_m s')"
  have p1: "graph_m s x \<noteq> None" "x \<noteq> stem_id s" by (rule ef(1), rule ef(2))
  have p2: "exists None s' x = Inr False" using ef(3) by (simp add: exists_def)
  have p3: "\<forall>q nq. graph_m s' q = Some nq \<longrightarrow> x \<notin> parents nq \<and> x \<notin> children nq"
    by (rule ef(4))
  have p4: "\<forall>c nc. graph_m s c = Some nc \<longrightarrow> parents nc = {x} \<longrightarrow> graph_m s' c = None"
  proof (intro allI impI)
    fix c nc assume c: "graph_m s c = Some nc" and only: "parents nc = {x}"
    have ne: "parents nc \<noteq> {}" using only by simp
    have pin: "p \<in> cascade (graph_m s) x" if "p \<in> parents nc" for p
      using that only by (simp add: cascade.base)
    have "c \<in> cascade (graph_m s) x" using c ne pin by (rule cascade.step)
    with ef(5) show "graph_m s' c = None" by blast
  qed
  have p5: "\<forall>q\<in>cascade (graph_m s) x. graph_m s' q = None" by (rule ef(5))
  have p6: "\<forall>q nq. graph_m s q = Some nq \<longrightarrow> q \<noteq> x \<longrightarrow> parents nq = {}
           \<longrightarrow> graph_m s' q \<noteq> None"
    using sp(6) by blast
  have p7: "\<forall>q nq'. graph_m s' q = Some nq' \<longrightarrow>
           (\<exists>nq. graph_m s q = Some nq
              \<and> parents nq' = parents nq - ?R \<and> children nq' = children nq - ?R)"
    using ef(6) by blast
  have p8: "nonstem_parents s'" by (rule ef(7))
  have p9: "no_self_parent (graph_m s) \<longrightarrow>
          dom (graph_m s') = dom (graph_m s) - cascade (graph_m s) x
          \<and> (\<forall>q nq. graph_m s q = Some nq \<longrightarrow> q \<noteq> x \<longrightarrow>
                (graph_m s' q = None
                   \<longleftrightarrow> parents nq \<noteq> {} \<and> (\<forall>p\<in>parents nq. graph_m s' p = None)))
          \<and> (\<forall>c nc p. graph_m s c = Some nc \<longrightarrow> x \<in> parents nc \<longrightarrow> p \<in> parents nc
                \<longrightarrow> graph_m s' p \<noteq> None \<longrightarrow>
                (\<exists>nc'. graph_m s' c = Some nc' \<and> x \<notin> parents nc' \<and> p \<in> parents nc'
                   \<and> parents nc' = parents nc - ?R \<and> children nc' = children nc - ?R))"
  proof (rule impI)
    assume nself: "no_self_parent (graph_m s)"
    note ex = remove_op_exact[OF i nself run]
    have surv: "\<forall>c nc p. graph_m s c = Some nc \<longrightarrow> x \<in> parents nc \<longrightarrow> p \<in> parents nc
                \<longrightarrow> graph_m s' p \<noteq> None \<longrightarrow>
                (\<exists>nc'. graph_m s' c = Some nc' \<and> x \<notin> parents nc' \<and> p \<in> parents nc'
                   \<and> parents nc' = parents nc - ?R \<and> children nc' = children nc - ?R)"
    proof (intro allI impI)
      fix c nc p
      assume c: "graph_m s c = Some nc" and xp: "x \<in> parents nc" and pp: "p \<in> parents nc"
        and ps: "graph_m s' p \<noteq> None"
      have cx: "c \<noteq> x" using nself c xp unfolding no_self_parent_def by blast
      from ex(2) c cx have "graph_m s' c = None
          \<longleftrightarrow> parents nc \<noteq> {} \<and> (\<forall>p\<in>parents nc. graph_m s' p = None)"
        by blast
      with pp ps have "graph_m s' c \<noteq> None" by auto
      then obtain nc' where c': "graph_m s' c = Some nc'" by blast
      from p7 c' obtain n0 where n0: "graph_m s c = Some n0"
        "parents nc' = parents n0 - ?R" "children nc' = children n0 - ?R"
        by blast
      from n0(1) c have "n0 = nc" by simp
      with n0 have e: "parents nc' = parents nc - ?R" "children nc' = children nc - ?R"
        by simp_all
      have "p \<notin> ?R" using ps by auto
      with e(1) pp have "p \<in> parents nc'" by blast
      moreover from p3 c' have "x \<notin> parents nc'" by blast
      ultimately show "\<exists>nc'. graph_m s' c = Some nc' \<and> x \<notin> parents nc' \<and> p \<in> parents nc'
                   \<and> parents nc' = parents nc - ?R \<and> children nc' = children nc - ?R"
        using c' e by blast
    qed
    from ex(1) ex(2) surv show "dom (graph_m s') = dom (graph_m s) - cascade (graph_m s) x
          \<and> (\<forall>q nq. graph_m s q = Some nq \<longrightarrow> q \<noteq> x \<longrightarrow>
                (graph_m s' q = None
                   \<longleftrightarrow> parents nq \<noteq> {} \<and> (\<forall>p\<in>parents nq. graph_m s' p = None)))
          \<and> (\<forall>c nc p. graph_m s c = Some nc \<longrightarrow> x \<in> parents nc \<longrightarrow> p \<in> parents nc
                \<longrightarrow> graph_m s' p \<noteq> None \<longrightarrow>
                (\<exists>nc'. graph_m s' c = Some nc' \<and> x \<notin> parents nc' \<and> p \<in> parents nc'
                   \<and> parents nc' = parents nc - ?R \<and> children nc' = children nc - ?R))"
      by (intro conjI)
  qed
  show ?thesis
    by (rule conjI[OF p1(1) conjI[OF p1(2) conjI[OF p2 conjI[OF p3 conjI[OF p4
          conjI[OF p5 conjI[OF p6 conjI[OF p7 conjI[OF p8 p9]]]]]]]]])
qed

theorem remove_cascade_witness:
  "reachable id id ex_shared \<and> no_self_parent (graph_m ex_shared)
   \<and> remove_op (Suc 0) None 1 ex_shared = Some (Inr (), ex_shared_removed)
   \<and> exists None ex_shared_removed 1 = Inr False
   \<and> map_option parents (graph_m ex_shared_removed 2) = Some {0}
   \<and> dom (graph_m ex_shared_removed) = {0, 2}
   \<and> cascade (graph_m ex_shared) 1 \<inter> {0, 1, 2} = {1}
   \<and> nonstem_parents ex_shared_removed"
proof -
  have r: "reachable id id ex_shared"
    using guarded_ex_shared by (rule guarded_reachable)
  have run: "remove_op (Suc 0) None 1 ex_shared = Some (Inr (), ex_shared_removed)"
    by (simp add: ex_shared_remove ex_shared_removed_eq del: One_nat_def)
  have nself: "no_self_parent (graph_m ex_shared)"
    by (simp add: no_self_parent_def ex_shared_eq)
  have two: "graph_m ex_shared 2 = Some \<lparr>children = {}, parents = {0, 1}, virus = 2\<rparr>"
    by (simp add: ex_shared_eq)
  have zero: "graph_m ex_shared_removed 0 \<noteq> None"
    by (simp add: ex_shared_removed_eq)
  have d: "dom (graph_m ex_shared) = {0, 1, 2}" "dom (graph_m ex_shared_removed) = {0, 2}"
    by (simp_all add: ex_shared_eq ex_shared_removed_eq insert_commute)
  have w1: "exists None ex_shared_removed 1 = Inr False"
    by (rule remove_cascade[OF r run, THEN conjunct2, THEN conjunct2, THEN conjunct1])
  have w2: "nonstem_parents ex_shared_removed"
    by (rule remove_cascade[OF r run, THEN conjunct2, THEN conjunct2, THEN conjunct2, THEN conjunct2, THEN conjunct2, THEN conjunct2, THEN conjunct2, THEN conjunct2, THEN conjunct1])
  note t = remove_cascade[OF r run, THEN conjunct2, THEN conjunct2, THEN conjunct2, THEN conjunct2, THEN conjunct2, THEN conjunct2, THEN conjunct2, THEN conjunct2, THEN conjunct2, THEN mp, OF nself]
  have dm: "dom (graph_m ex_shared_removed)
      = dom (graph_m ex_shared) - cascade (graph_m ex_shared) 1"
    by (rule t[THEN conjunct1])
  have one: "(1::nat) \<in> parents \<lparr>children = {}, parents = {0, 1}, virus = 2::nat\<rparr>"
    and nought: "(0::nat) \<in> parents \<lparr>children = {}, parents = {0, 1}, virus = 2::nat\<rparr>"
    by simp_all
  from t[THEN conjunct2, THEN conjunct2, THEN spec, THEN spec, THEN spec, THEN mp, THEN mp,
      THEN mp, THEN mp, OF two one nought zero]
  obtain nc' where nc': "graph_m ex_shared_removed 2 = Some nc'" "1 \<notin> parents nc'"
      "0 \<in> parents nc'"
      "parents nc' = parents \<lparr>children = {}, parents = {0, 1}, virus = 2::nat\<rparr>
           - (dom (graph_m ex_shared) - dom (graph_m ex_shared_removed))"
    by blast
  from nc'(2,3,4) have "parents nc' = {0}" by (simp only: node.simps) blast
  with nc'(1) have w3: "map_option parents (graph_m ex_shared_removed 2) = Some {0}"
    by simp
  have "0 \<in> dom (graph_m ex_shared_removed)" "2 \<in> dom (graph_m ex_shared_removed)"
    by (simp_all add: d(2))
  with dm have out: "0 \<notin> cascade (graph_m ex_shared) 1" "2 \<notin> cascade (graph_m ex_shared) 1"
    by blast+
  have "1 \<in> cascade (graph_m ex_shared) 1" by (rule cascade.base)
  with out have w4: "cascade (graph_m ex_shared) 1 \<inter> {0, 1, 2} = {1}"
    by blast
  from r nself run w1 w3 d(2) w4 w2 show ?thesis by (intro conjI)
qed

text \<open>
  The claim as it is written (every child of \<open>x\<close> that had another parent survives)
  fails in the third example: \<open>3\<close> is a child of \<open>1\<close> and of \<open>2\<close>, and \<^verbatim>\<open>remove(1)\<close>
  removes it, since its other parent \<open>2\<close> is removed by the cascade. And where a
  node is its own parent, a child is removed although one of its parents remains: in
  the example with the edge from \<open>2\<close> to itself, \<^verbatim>\<open>remove(2)\<close> removes \<open>3\<close>, whose
  parent \<open>0\<close> remains.
\<close>

theorem remove_cascade_counterexample:
  "reachable id id ex_diamond
   \<and> graph_m ex_diamond 1 = Some \<lparr>children = {2, 3}, parents = {0}, virus = 1\<rparr>
   \<and> graph_m ex_diamond 3 = Some \<lparr>children = {}, parents = {1, 2}, virus = 3\<rparr>
   \<and> remove_op (Suc (Suc 0)) None 1 ex_diamond = Some (Inr (), ex_diamond_removed)
   \<and> graph_m ex_diamond_removed 3 = None
   \<and> reachable id id ex_loop
   \<and> graph_m ex_loop 2 = Some \<lparr>children = {2, 3}, parents = {2}, virus = 2\<rparr>
   \<and> graph_m ex_loop 3 = Some \<lparr>children = {}, parents = {0, 2}, virus = 3\<rparr>
   \<and> remove_op (Suc (Suc 0)) None 2 ex_loop = Some (Inr (), ex_loop_removed)
   \<and> graph_m ex_loop_removed 3 = None
   \<and> graph_m ex_loop_removed 0 = Some \<lparr>children = {}, parents = {}, virus = 0\<rparr>"
proof -
  have c1: "reachable id id ex_diamond"
    using guarded_ex_diamond by (rule guarded_reachable)
  have c2: "graph_m ex_diamond 1 = Some \<lparr>children = {2, 3}, parents = {0}, virus = 1\<rparr>"
    and c3: "graph_m ex_diamond 3 = Some \<lparr>children = {}, parents = {1, 2}, virus = 3\<rparr>"
    by (simp_all add: ex_diamond_eq)
  have c4: "remove_op (Suc (Suc 0)) None 1 ex_diamond = Some (Inr (), ex_diamond_removed)"
    by (simp add: ex_diamond_remove ex_diamond_removed_eq del: One_nat_def)
  have c5: "graph_m ex_diamond_removed 3 = None"
    by (simp add: ex_diamond_removed_eq)
  have c6: "reachable id id ex_loop" by (rule reachable_ex_loop)
  have c7: "graph_m ex_loop 2 = Some \<lparr>children = {2, 3}, parents = {2}, virus = 2\<rparr>"
    and c8: "graph_m ex_loop 3 = Some \<lparr>children = {}, parents = {0, 2}, virus = 3\<rparr>"
    by (simp_all add: ex_loop_eq)
  have c9: "remove_op (Suc (Suc 0)) None 2 ex_loop = Some (Inr (), ex_loop_removed)"
    by (simp add: ex_loop_remove ex_loop_removed_eq del: One_nat_def)
  have c10: "graph_m ex_loop_removed 3 = None"
    and c11: "graph_m ex_loop_removed 0 = Some \<lparr>children = {}, parents = {}, virus = 0\<rparr>"
    by (simp_all add: ex_loop_removed_eq)
  from c1 c2 c3 c4 c5 c6 c7 c8 c9 c10 c11 show ?thesis by (intro conjI)
qed

section \<open>Strong exception safety\<close>

text \<open>
  C1: for \<^verbatim>\<open>create\<close> (both overloads), \<^verbatim>\<open>connect\<close> and \<^verbatim>\<open>remove\<close>, from every
  state and whatever call of the parameter type throws (every budget \<open>b\<close>, so also
  an exception in the middle of the parent-side updates of \<^verbatim>\<open>create\<close>): when the
  operation throws, the object is left in the state it had before the call; when it
  returns, the whole effect is there. For \<^verbatim>\<open>create\<close> that is the new node with its
  parents and the child entry in every parent (and nothing at all for an empty
  vector of parents); for \<^verbatim>\<open>connect\<close>, both halves of the new edge. For \<^verbatim>\<open>remove\<close>
  it is the graph the helper computed on the copy, in which the node is gone; in a
  reachable state this graph has lost the whole cascade of the node, has kept every
  other node that had no parents, and each node that is left has the parents and
  children it had, less the removed nodes; and where no node is its own parent, the
  new graph is exactly the old one without the cascade.
\<close>

theorem mutations_are_atomic:
  "(create b k p s = (Inl e, s') \<longrightarrow> s' = s)
   \<and> (create_multi b k ps s = (Inl e, s') \<longrightarrow> s' = s)
   \<and> (connect b c p s = (Inl e, s') \<longrightarrow> s' = s)
   \<and> (remove_op n b k s = Some (Inl e, s') \<longrightarrow> s' = s)
   \<and> (create b k p s = (Inr (), s') \<longrightarrow>
        (\<exists>np. graph_m s k = None \<and> graph_m s p = Some np
           \<and> s' = s\<lparr>graph_m := (graph_m s)
                 (k \<mapsto> \<lparr>children = {}, parents = {virus np}, virus = k\<rparr>,
                  p \<mapsto> np\<lparr>children := insert k (children np)\<rparr>)\<rparr>))
   \<and> (create_multi b k ps s = (Inr (), s') \<longrightarrow> ps = [] \<longrightarrow> s' = s)
   \<and> (create_multi b k ps s = (Inr (), s') \<longrightarrow> ps \<noteq> [] \<longrightarrow>
        s' = s\<lparr>graph_m := (\<lambda>q.
           if q = k then Some \<lparr>children = {},
                  parents = {v. \<exists>p\<in>set ps. \<exists>np. graph_m s p = Some np \<and> v = virus np},
                  virus = k\<rparr>
           else if q \<in> set ps
             then map_option (\<lambda>n. n\<lparr>children := insert k (children n)\<rparr>) (graph_m s q)
             else graph_m s q)\<rparr>)
   \<and> (connect b c p s = (Inr (), s') \<longrightarrow>
        (\<exists>nc np. graph_m s c = Some nc \<and> graph_m s p = Some np
           \<and> (p \<in> parents nc \<longrightarrow> s' = s)
           \<and> (p \<notin> parents nc \<longrightarrow> s' = s\<lparr>graph_m :=
                 (if c = p
                  then (graph_m s)(c \<mapsto> nc\<lparr>parents := insert (virus nc) (parents nc),
                                            children := insert (virus nc) (children nc)\<rparr>)
                  else (graph_m s)(c \<mapsto> nc\<lparr>parents := insert (virus np) (parents nc)\<rparr>,
                                   p \<mapsto> np\<lparr>children := insert (virus nc) (children np)\<rparr>))\<rparr>)))
   \<and> (remove_op n b k s = Some (Inr (), s') \<longrightarrow>
        graph_m s' k = None
        \<and> (\<exists>b1 b2. remove_helper n b1 (graph_m s) (graph_m s) k
               = Some (Inr (graph_m s', b2)))
        \<and> s' = s\<lparr>graph_m := graph_m s'\<rparr>)
   \<and> (reachable Virus get_id s \<longrightarrow> remove_op n b k s = Some (Inr (), s') \<longrightarrow>
        (\<forall>q\<in>cascade (graph_m s) k. graph_m s' q = None)
        \<and> (\<forall>q nq. graph_m s q = Some nq \<longrightarrow> q \<noteq> k \<longrightarrow> parents nq = {}
              \<longrightarrow> graph_m s' q \<noteq> None)
        \<and> (\<forall>q nq'. graph_m s' q = Some nq' \<longrightarrow>
              (\<exists>nq. graph_m s q = Some nq
                 \<and> nq' = nq\<lparr>parents := parents nq - (dom (graph_m s) - dom (graph_m s')),
                            children := children nq - (dom (graph_m s) - dom (graph_m s'))\<rparr>))
        \<and> (no_self_parent (graph_m s) \<longrightarrow>
              s' = s\<lparr>graph_m := (\<lambda>q. if q \<in> cascade (graph_m s) k then None
                 else map_option (\<lambda>nq. nq\<lparr>parents := parents nq - cascade (graph_m s) k,
                                          children := children nq - cascade (graph_m s) k\<rparr>)
                        (graph_m s q))\<rparr>))"
proof -
  have a1: "create b k p s = (Inl e, s') \<longrightarrow> s' = s"
    by (rule impI) (rule create_Inl)
  have a2: "create_multi b k ps s = (Inl e, s') \<longrightarrow> s' = s"
    by (rule impI) (rule create_multi_Inl)
  have a3: "connect b c p s = (Inl e, s') \<longrightarrow> s' = s"
    by (rule impI) (rule connect_Inl)
  have a4: "remove_op n b k s = Some (Inl e, s') \<longrightarrow> s' = s"
    by (rule impI) (rule remove_op_Inl)
  have a5: "create b k p s = (Inr (), s') \<longrightarrow>
        (\<exists>np. graph_m s k = None \<and> graph_m s p = Some np
           \<and> s' = s\<lparr>graph_m := (graph_m s)
                 (k \<mapsto> \<lparr>children = {}, parents = {virus np}, virus = k\<rparr>,
                  p \<mapsto> np\<lparr>children := insert k (children np)\<rparr>)\<rparr>)"
    by (rule impI) (rule create_Inr)
  have a6: "create_multi b k ps s = (Inr (), s') \<longrightarrow> ps \<noteq> [] \<longrightarrow>
        s' = s\<lparr>graph_m := (\<lambda>q.
           if q = k then Some \<lparr>children = {},
                  parents = {v. \<exists>p\<in>set ps. \<exists>np. graph_m s p = Some np \<and> v = virus np},
                  virus = k\<rparr>
           else if q \<in> set ps
             then map_option (\<lambda>n. n\<lparr>children := insert k (children n)\<rparr>) (graph_m s q)
             else graph_m s q)\<rparr>"
  proof (intro impI)
    assume r: "create_multi b k ps s = (Inr (), s')" and ne: "ps \<noteq> []"
    from create_multi_Inr[OF r] ne show "s' = s\<lparr>graph_m := (\<lambda>q.
           if q = k then Some \<lparr>children = {},
                  parents = {v. \<exists>p\<in>set ps. \<exists>np. graph_m s p = Some np \<and> v = virus np},
                  virus = k\<rparr>
           else if q \<in> set ps
             then map_option (\<lambda>n. n\<lparr>children := insert k (children n)\<rparr>) (graph_m s q)
             else graph_m s q)\<rparr>"
      by (elim conjE) (erule (1) mp)
  qed
  have a6e: "create_multi b k ps s = (Inr (), s') \<longrightarrow> ps = [] \<longrightarrow> s' = s"
  proof (intro impI)
    assume r: "create_multi b k ps s = (Inr (), s')" and e: "ps = []"
    from create_multi_Inr[OF r] e show "s' = s"
      by (elim conjE) (erule (1) mp)
  qed
  have a7: "connect b c p s = (Inr (), s') \<longrightarrow>
        (\<exists>nc np. graph_m s c = Some nc \<and> graph_m s p = Some np
           \<and> (p \<in> parents nc \<longrightarrow> s' = s)
           \<and> (p \<notin> parents nc \<longrightarrow> s' = s\<lparr>graph_m :=
                 (if c = p
                  then (graph_m s)(c \<mapsto> nc\<lparr>parents := insert (virus nc) (parents nc),
                                            children := insert (virus nc) (children nc)\<rparr>)
                  else (graph_m s)(c \<mapsto> nc\<lparr>parents := insert (virus np) (parents nc)\<rparr>,
                                   p \<mapsto> np\<lparr>children := insert (virus nc) (children np)\<rparr>))\<rparr>))"
    by (rule impI) (rule connect_Inr)
  have a8: "remove_op n b k s = Some (Inr (), s') \<longrightarrow>
        graph_m s' k = None
        \<and> (\<exists>b1 b2. remove_helper n b1 (graph_m s) (graph_m s) k
               = Some (Inr (graph_m s', b2)))
        \<and> s' = s\<lparr>graph_m := graph_m s'\<rparr>"
  proof (rule impI)
    assume r: "remove_op n b k s = Some (Inr (), s')"
    from remove_op_Inr[OF r] obtain b1 b2 where
      h: "remove_helper n b1 (graph_m s) (graph_m s) k = Some (Inr (graph_m s', b2))"
         "s' = s\<lparr>graph_m := graph_m s'\<rparr>"
      by blast
    have "graph_m s' k = None" using h(1) by (rule remove_helper_gone)
    moreover have "\<exists>b1 b2. remove_helper n b1 (graph_m s) (graph_m s) k
               = Some (Inr (graph_m s', b2))"
      using h(1) by blast
    ultimately show "graph_m s' k = None
        \<and> (\<exists>b1 b2. remove_helper n b1 (graph_m s) (graph_m s) k
               = Some (Inr (graph_m s', b2)))
        \<and> s' = s\<lparr>graph_m := graph_m s'\<rparr>"
      using h(2) by (intro conjI)
  qed
  have a9: "(reachable Virus get_id s \<longrightarrow> remove_op n b k s = Some (Inr (), s') \<longrightarrow>
      (\<forall>q\<in>cascade (graph_m s) k. graph_m s' q = None)
      \<and> (\<forall>q nq. graph_m s q = Some nq \<longrightarrow> q \<noteq> k \<longrightarrow> parents nq = {}
            \<longrightarrow> graph_m s' q \<noteq> None)
      \<and> (\<forall>q nq'. graph_m s' q = Some nq' \<longrightarrow>
            (\<exists>nq. graph_m s q = Some nq
               \<and> nq' = nq\<lparr>parents := parents nq - (dom (graph_m s) - dom (graph_m s')),
                          children := children nq - (dom (graph_m s) - dom (graph_m s'))\<rparr>))
      \<and> (no_self_parent (graph_m s) \<longrightarrow>
            s' = s\<lparr>graph_m := (\<lambda>q. if q \<in> cascade (graph_m s) k then None
               else map_option (\<lambda>nq. nq\<lparr>parents := parents nq - cascade (graph_m s) k,
                                        children := children nq - cascade (graph_m s) k\<rparr>)
                      (graph_m s q))\<rparr>))"
  proof (intro impI)
    assume reach: "reachable Virus get_id s"
      and run: "remove_op n b k s = Some (Inr (), s')"
    have i: "wf_genealogy s" using reach by (rule reachable_inv)
    then have vok: "virus_ok (graph_m s)" and fok: "finite_ok (graph_m s)"
      by (simp_all add: wf_genealogy_def)
    note sp = remove_op_spec[OF run vok fok]
    note ef = remove_op_effect[OF i run]
    let ?R = "dom (graph_m s) - dom (graph_m s')"
    have q1: "\<forall>q\<in>cascade (graph_m s) k. graph_m s' q = None" by (rule ef(5))
    have q2: "\<forall>q nq. graph_m s q = Some nq \<longrightarrow> q \<noteq> k \<longrightarrow> parents nq = {}
              \<longrightarrow> graph_m s' q \<noteq> None"
      using sp(6) by blast
    have q3: "\<forall>q nq'. graph_m s' q = Some nq' \<longrightarrow>
              (\<exists>nq. graph_m s q = Some nq
                 \<and> nq' = nq\<lparr>parents := parents nq - ?R, children := children nq - ?R\<rparr>)"
    proof (intro allI impI)
      fix q nq' assume q': "graph_m s' q = Some nq'"
      from ef(6) q' obtain nq where nq: "graph_m s q = Some nq" "virus nq' = virus nq"
        "parents nq' = parents nq - ?R" "children nq' = children nq - ?R"
        by blast
      from nq(2,3,4) have "nq' = nq\<lparr>parents := parents nq - ?R, children := children nq - ?R\<rparr>"
        by simp
      with nq(1) show "\<exists>nq. graph_m s q = Some nq
                 \<and> nq' = nq\<lparr>parents := parents nq - ?R, children := children nq - ?R\<rparr>"
        by blast
    qed
    have q4: "no_self_parent (graph_m s) \<longrightarrow>
              s' = s\<lparr>graph_m := (\<lambda>q. if q \<in> cascade (graph_m s) k then None
                 else map_option (\<lambda>nq. nq\<lparr>parents := parents nq - cascade (graph_m s) k,
                                          children := children nq - cascade (graph_m s) k\<rparr>)
                        (graph_m s q))\<rparr>"
    proof (rule impI)
      assume nself: "no_self_parent (graph_m s)"
      from i nself run show "s' = s\<lparr>graph_m := (\<lambda>q. if q \<in> cascade (graph_m s) k then None
                 else map_option (\<lambda>nq. nq\<lparr>parents := parents nq - cascade (graph_m s) k,
                                          children := children nq - cascade (graph_m s) k\<rparr>)
                        (graph_m s q))\<rparr>"
        by (rule remove_op_graph)
    qed
    show "(\<forall>q\<in>cascade (graph_m s) k. graph_m s' q = None)
      \<and> (\<forall>q nq. graph_m s q = Some nq \<longrightarrow> q \<noteq> k \<longrightarrow> parents nq = {}
            \<longrightarrow> graph_m s' q \<noteq> None)
      \<and> (\<forall>q nq'. graph_m s' q = Some nq' \<longrightarrow>
            (\<exists>nq. graph_m s q = Some nq
               \<and> nq' = nq\<lparr>parents := parents nq - (dom (graph_m s) - dom (graph_m s')),
                          children := children nq - (dom (graph_m s) - dom (graph_m s'))\<rparr>))
      \<and> (no_self_parent (graph_m s) \<longrightarrow>
            s' = s\<lparr>graph_m := (\<lambda>q. if q \<in> cascade (graph_m s) k then None
               else map_option (\<lambda>nq. nq\<lparr>parents := parents nq - cascade (graph_m s) k,
                                        children := children nq - cascade (graph_m s) k\<rparr>)
                      (graph_m s q))\<rparr>)"
      by (rule conjI[OF q1 conjI[OF q2 conjI[OF q3 q4]]])
  qed
  show ?thesis
    by (rule conjI[OF a1 conjI[OF a2 conjI[OF a3 conjI[OF a4
          conjI[OF a5 conjI[OF a6e conjI[OF a6 conjI[OF a7 conjI[OF a8 a9]]]]]]]]])
qed

theorem mutations_are_atomic_witness:
  "create (Some 5) 1 0 (construct 0 :: (nat, nat) genealogy) = (Inl UserException, construct 0)
   \<and> fst (create None 1 0 (construct 0 :: (nat, nat) genealogy)) = Inr ()
   \<and> graph_m (snd (create None 1 0 (construct 0 :: (nat, nat) genealogy))) 1
       = Some \<lparr>children = {}, parents = {0}, virus = 1\<rparr>
   \<and> graph_m (snd (create None 1 0 (construct 0 :: (nat, nat) genealogy))) 0
       = Some \<lparr>children = {1}, parents = {}, virus = 0\<rparr>
   \<and> remove_op (Suc 0) None 0 (construct 0 :: (nat, nat) genealogy)
       = Some (Inl TriedToRemoveStemVirus, construct 0)
   \<and> create_multi None 1 [] (construct 0 :: (nat, nat) genealogy) = (Inr (), construct 0)
   \<and> reachable id id ex_diamond \<and> no_self_parent (graph_m ex_diamond)
   \<and> remove_op (Suc (Suc 0)) None 1 ex_diamond = Some (Inr (), ex_diamond_removed)
   \<and> graph_m ex_diamond_removed 3 = None
   \<and> graph_m ex_diamond_removed 0 = Some \<lparr>children = {}, parents = {}, virus = 0\<rparr>
   \<and> ex_diamond_removed = ex_diamond\<lparr>graph_m := (\<lambda>q.
         if q \<in> cascade (graph_m ex_diamond) 1 then None
         else map_option (\<lambda>nq. nq\<lparr>parents := parents nq - cascade (graph_m ex_diamond) 1,
                                  children := children nq - cascade (graph_m ex_diamond) 1\<rparr>)
                (graph_m ex_diamond q))\<rparr>"
proof -
  let ?s0 = "construct 0 :: (nat, nat) genealogy"
  have g0: "graph_m ?s0 = Map.empty(0 \<mapsto> \<lparr>children = {}, parents = {}, virus = 0\<rparr>)"
    by (simp add: construct_def)
  have thrown: "fst (create (Some 5) 1 0 ?s0) = Inl UserException"
    by (simp add: create_def create_try_def g0 exists_b_def find_b_def set_insert_b_def
          map_insert_b_def copy_b_def tick_def)
  then have "create (Some 5) 1 0 ?s0 = (Inl UserException, snd (create (Some 5) 1 0 ?s0))"
    by (metis prod.collapse)
  with mutations_are_atomic[where b = "Some 5" and k = 1 and p = 0 and s = ?s0
      and e = UserException and s' = "snd (create (Some 5) 1 0 ?s0)"]
  have "snd (create (Some 5) 1 0 ?s0) = ?s0" by blast
  with thrown have w1: "create (Some 5) 1 0 ?s0 = (Inl UserException, ?s0)"
    by (metis prod.collapse)
  have ok: "fst (create None 1 0 ?s0) = Inr ()"
    by (simp add: create_def create_try_def g0)
  then have "create None 1 0 ?s0 = (Inr (), snd (create None 1 0 ?s0))"
    by (metis prod.collapse)
  with mutations_are_atomic[where b = None and k = 1 and p = 0 and s = ?s0
      and s' = "snd (create None 1 0 ?s0)"]
  have "\<exists>np. graph_m ?s0 1 = None \<and> graph_m ?s0 0 = Some np
           \<and> snd (create None 1 0 ?s0) = ?s0\<lparr>graph_m := (graph_m ?s0)
                 (1 \<mapsto> \<lparr>children = {}, parents = {virus np}, virus = 1\<rparr>,
                  0 \<mapsto> np\<lparr>children := insert 1 (children np)\<rparr>)\<rparr>"
    by blast
  then have w2: "graph_m (snd (create None 1 0 ?s0)) 1
       = Some \<lparr>children = {}, parents = {0}, virus = 1\<rparr>"
    and w3: "graph_m (snd (create None 1 0 ?s0)) 0
       = Some \<lparr>children = {1}, parents = {}, virus = 0\<rparr>"
    by (auto simp: g0)
  have stem: "fst (the (remove_op (Suc 0) None 0 ?s0)) = Inl TriedToRemoveStemVirus"
    "remove_op (Suc 0) None 0 ?s0 \<noteq> None"
    by (simp_all add: remove_op_def g0) (simp_all add: construct_def)
  then have "remove_op (Suc 0) None 0 ?s0
      = Some (Inl TriedToRemoveStemVirus, snd (the (remove_op (Suc 0) None 0 ?s0)))"
    by (metis option.collapse prod.collapse)
  with mutations_are_atomic[where n = "Suc 0" and b = None and k = 0 and s = ?s0
      and e = TriedToRemoveStemVirus and s' = "snd (the (remove_op (Suc 0) None 0 ?s0))"]
  have w4: "remove_op (Suc 0) None 0 ?s0 = Some (Inl TriedToRemoveStemVirus, ?s0)"
    by simp
  have okm: "fst (create_multi None 1 [] ?s0) = Inr ()"
    by (simp add: create_multi_def g0)
  then have "create_multi None 1 [] ?s0 = (Inr (), snd (create_multi None 1 [] ?s0))"
    by (metis prod.collapse)
  from mutations_are_atomic[where b = None and k = 1 and ps = "[]" and s = ?s0
      and s' = "snd (create_multi None 1 [] ?s0)", THEN conjunct2, THEN conjunct2,
      THEN conjunct2, THEN conjunct2, THEN conjunct2, THEN conjunct1, THEN mp, THEN mp,
      OF this refl]
  have "snd (create_multi None 1 [] ?s0) = ?s0" .
  with okm have w5: "create_multi None 1 [] ?s0 = (Inr (), ?s0)"
    by (metis prod.collapse)
  have r: "reachable id id ex_diamond"
    using guarded_ex_diamond by (rule guarded_reachable)
  have nself: "no_self_parent (graph_m ex_diamond)"
    by (simp add: no_self_parent_def ex_diamond_eq)
  have run: "remove_op (Suc (Suc 0)) None 1 ex_diamond = Some (Inr (), ex_diamond_removed)"
    by (simp add: ex_diamond_remove ex_diamond_removed_eq del: One_nat_def)
  note t = mutations_are_atomic[where Virus = id and get_id = id and n = "Suc (Suc 0)"
      and b = None and k = 1 and s = ex_diamond and s' = ex_diamond_removed,
      THEN conjunct2, THEN conjunct2, THEN conjunct2, THEN conjunct2, THEN conjunct2,
      THEN conjunct2, THEN conjunct2, THEN conjunct2, THEN conjunct2, THEN mp, THEN mp,
      OF r run]
  have three: "graph_m ex_diamond 3 = Some \<lparr>children = {}, parents = {1, 2}, virus = 3\<rparr>"
    and two: "graph_m ex_diamond 2 = Some \<lparr>children = {3}, parents = {1}, virus = 2\<rparr>"
    and nought: "graph_m ex_diamond 0 = Some \<lparr>children = {1}, parents = {}, virus = 0\<rparr>"
    by (simp_all add: ex_diamond_eq)
  have c1: "1 \<in> cascade (graph_m ex_diamond) 1" by (rule cascade.base)
  have ne2: "parents \<lparr>children = {3}, parents = {1}, virus = 2::nat\<rparr> \<noteq> {}" by simp
  have in2: "p \<in> cascade (graph_m ex_diamond) 1"
    if "p \<in> parents \<lparr>children = {3}, parents = {1}, virus = 2::nat\<rparr>" for p
    using that c1 by simp
  have c2: "2 \<in> cascade (graph_m ex_diamond) 1" using two ne2 in2 by (rule cascade.step)
  have ne3: "parents \<lparr>children = {}, parents = {1, 2}, virus = 3::nat\<rparr> \<noteq> {}" by simp
  have in3: "p \<in> cascade (graph_m ex_diamond) 1"
    if "p \<in> parents \<lparr>children = {}, parents = {1, 2}, virus = 3::nat\<rparr>" for p
    using that c1 c2 by auto
  have c3: "3 \<in> cascade (graph_m ex_diamond) 1" using three ne3 in3 by (rule cascade.step)
  from t[THEN conjunct1] c3 have w6: "graph_m ex_diamond_removed 3 = None" by (rule bspec)
  have "(0::nat) \<noteq> 1" "parents \<lparr>children = {1}, parents = {}, virus = 0::nat\<rparr> = {}"
    by simp_all
  with t[THEN conjunct2, THEN conjunct1] nought
  have "graph_m ex_diamond_removed 0 \<noteq> None" by blast
  then have w7: "graph_m ex_diamond_removed 0 = Some \<lparr>children = {}, parents = {}, virus = 0\<rparr>"
    by (simp add: ex_diamond_removed_eq)
  note w8 = t[THEN conjunct2, THEN conjunct2, THEN conjunct2, THEN mp, OF nself]
  from w1 ok w2 w3 w4 w5 r nself run w6 w7 w8 show ?thesis by (intro conjI)
qed

section \<open>A removal that fails on a node of the graph\<close>

text \<open>
  Where a node is its own parent, \<^verbatim>\<open>remove\<close> can also throw on a node that is in the
  graph and is not the stem: the nested call on the node itself erases a child that
  the outer loop then looks up with \<^verbatim>\<open>at\<close>. The state is unchanged.
\<close>

lemma ex_loop_only_eq:
  "ex_loop_only = \<lparr>graph_m = Map.empty(0 \<mapsto> \<lparr>children = {}, parents = {}, virus = 0\<rparr>,
                           2 \<mapsto> \<lparr>children = {2, 3}, parents = {2}, virus = 2\<rparr>,
                           3 \<mapsto> \<lparr>children = {}, parents = {2}, virus = 3\<rparr>),
        virus_set = Map.empty, stem_id = 0\<rparr>"
  by (auto simp: ex_loop_only_def ex_chain_eq create_def create_try_def connect_def
        connect_graph_def Let_def remove_op_def insert_Diff_if simp del: One_nat_def intro!: ext)

lemma ex_loop_only_remove:
  "remove_op (Suc (Suc (Suc (Suc 0)))) None 2 ex_loop_only = Some (Inl OutOfRange, ex_loop_only)"
  by (auto simp: ex_loop_only_eq remove_op_def sorted_list_two insert_Diff_if at_b_def
        simp del: One_nat_def intro!: ext)

end
